theory Spec2Isabelle
  imports Main "HOL-Library.Multiset"
begin

section \<open>Nodes, lists and the memory they own\<close>

text \<open>
  The class template \<^verbatim>\<open>LinkedList<T>\<close> of \<^verbatim>\<open>LinkedList.h\<close> keeps raw pointers
  \<^verbatim>\<open>head_\<close>, \<^verbatim>\<open>tail_\<close> and a counter \<^verbatim>\<open>size_\<close>; every node is allocated with
  \<^verbatim>\<open>new\<close> by the list that links it and released with \<^verbatim>\<open>delete\<close> by the same list.
  The fields are named \<open>head_ptr\<close>, \<open>tail_ptr\<close> and \<open>size_cnt\<close> here, since a name
  cannot end in an underscore, and \<^verbatim>\<open>back()\<close> is \<open>back_LL\<close>.  A pointer is an optional
  address (\<open>None\<close> is \<^verbatim>\<open>nullptr\<close>).  A list value carries the memory cells of its own
  nodes (\<open>mem\<close>) and the next address its allocator hands out (\<open>brk\<close>); a released cell
  is \<open>None\<close> again.  The counter is a C++ \<^verbatim>\<open>int\<close>; it is
  modelled as an unbounded integer, so lists of \<open>2^31\<close> or more nodes, where the
  increment would overflow, are outside the model.

  An exception is a value: \<open>RuntimeError msg\<close> is \<^verbatim>\<open>std::runtime_error(msg)\<close>.
  \<open>InvalidPointer\<close> marks the dereference of a null or released pointer, which the
  source never checks for and which is undefined behaviour in C++.
\<close>

type_synonym addr = nat

datatype error = RuntimeError string | InvalidPointer

type_synonym 'a res = "error + 'a"

record 'a Node =
  "next" :: "addr option"
  prev :: "addr option"
  data :: 'a

type_synonym 'a heap = "addr \<Rightarrow> 'a Node option"

record 'a LinkedList =
  mem :: "'a heap"
  brk :: addr
  head_ptr :: "addr option"
  tail_ptr :: "addr option"
  size_cnt :: int

definition bind_res :: "'a res \<Rightarrow> ('a \<Rightarrow> 'b res) \<Rightarrow> 'b res" where
  "bind_res r f = (case r of Inl e \<Rightarrow> Inl e | Inr x \<Rightarrow> f x)"

definition LIST_GENERAL_BUG_MESSAGE :: string where
  "LIST_GENERAL_BUG_MESSAGE =
     ''[Error] Probable causes: wrong head_ or tail_ pointer, or some next or prev pointer not updated, or wrong size_''"

text \<open>The default constructor \<^verbatim>\<open>LinkedList()\<close>.\<close>

definition LinkedList_default :: "'a LinkedList" where
  "LinkedList_default =
     \<lparr>mem = (\<lambda>_. None), brk = 0, head_ptr = None, tail_ptr = None, size_cnt = 0\<rparr>"

text \<open>\<^verbatim>\<open>new Node(dataArg)\<close>: a fresh cell whose two links are null.\<close>

definition new_Node :: "'a \<Rightarrow> 'a LinkedList \<Rightarrow> addr \<times> 'a LinkedList" where
  "new_Node dataArg l =
     (brk l, l\<lparr>mem := (mem l)(brk l \<mapsto> \<lparr>next = None, prev = None, data = dataArg\<rparr>),
               brk := Suc (brk l)\<rparr>)"

text \<open>Reading and writing through a pointer: \<^verbatim>\<open>p->...\<close>, \<^verbatim>\<open>p->next = q\<close>, \<^verbatim>\<open>p->prev = q\<close>.\<close>

definition deref :: "'a heap \<Rightarrow> addr option \<Rightarrow> 'a Node res" where
  "deref m p =
     (case p of None \<Rightarrow> Inl InvalidPointer
      | Some a \<Rightarrow> (case m a of None \<Rightarrow> Inl InvalidPointer | Some n \<Rightarrow> Inr n))"

definition set_next :: "addr option \<Rightarrow> addr option \<Rightarrow> 'a heap \<Rightarrow> 'a heap res" where
  "set_next p q m =
     (case p of None \<Rightarrow> Inl InvalidPointer
      | Some a \<Rightarrow> (case m a of None \<Rightarrow> Inl InvalidPointer
                   | Some n \<Rightarrow> Inr (m(a \<mapsto> n\<lparr>next := q\<rparr>))))"

definition set_prev :: "addr option \<Rightarrow> addr option \<Rightarrow> 'a heap \<Rightarrow> 'a heap res" where
  "set_prev p q m =
     (case p of None \<Rightarrow> Inl InvalidPointer
      | Some a \<Rightarrow> (case m a of None \<Rightarrow> Inl InvalidPointer
                   | Some n \<Rightarrow> Inr (m(a \<mapsto> n\<lparr>prev := q\<rparr>))))"

text \<open>\<^verbatim>\<open>delete p\<close> for a pointer that the caller has just read through.\<close>

definition delete :: "addr \<Rightarrow> 'a heap \<Rightarrow> 'a heap" where
  "delete a m = m(a := None)"

section \<open>Access and insertion or removal at both ends\<close>

definition size_LL :: "'a LinkedList \<Rightarrow> int" where
  "size_LL l = size_cnt l"

definition empty_LL :: "'a LinkedList \<Rightarrow> bool" where
  "empty_LL l = (head_ptr l = None)"

definition getHeadPtr :: "'a LinkedList \<Rightarrow> addr option" where
  "getHeadPtr l = head_ptr l"

definition getTailPtr :: "'a LinkedList \<Rightarrow> addr option" where
  "getTailPtr l = tail_ptr l"

definition front :: "'a LinkedList \<Rightarrow> 'a res" where
  "front l =
     (if head_ptr l = None then Inl (RuntimeError ''front() called on empty LinkedList'')
      else bind_res (deref (mem l) (head_ptr l)) (\<lambda>n. Inr (data n)))"

definition back_LL :: "'a LinkedList \<Rightarrow> 'a res" where
  "back_LL l =
     (if tail_ptr l = None then Inl (RuntimeError ''back() called on empty LinkedList'')
      else bind_res (deref (mem l) (tail_ptr l)) (\<lambda>n. Inr (data n)))"

definition pushFront :: "'a \<Rightarrow> 'a LinkedList \<Rightarrow> 'a LinkedList res" where
  "pushFront newData l =
     (case new_Node newData l of (newNode, l1) \<Rightarrow>
        (if head_ptr l1 = None
         then Inr (l1\<lparr>head_ptr := Some newNode, tail_ptr := Some newNode, size_cnt := size_cnt l1 + 1\<rparr>)
         else
           let oldHead = head_ptr l1 in
           bind_res (set_prev oldHead (Some newNode) (mem l1)) (\<lambda>m1.
           bind_res (set_next (Some newNode) oldHead m1) (\<lambda>m2.
           Inr (l1\<lparr>mem := m2, head_ptr := Some newNode, size_cnt := size_cnt l1 + 1\<rparr>)))))"

definition pushBack :: "'a \<Rightarrow> 'a LinkedList \<Rightarrow> 'a LinkedList res" where
  "pushBack newData l =
     (case new_Node newData l of (newNode, l1) \<Rightarrow>
        (if head_ptr l1 = None
         then Inr (l1\<lparr>head_ptr := Some newNode, tail_ptr := Some newNode, size_cnt := size_cnt l1 + 1\<rparr>)
         else
           let oldTail = tail_ptr l1 in
           bind_res (set_next oldTail (Some newNode) (mem l1)) (\<lambda>m1.
           bind_res (set_prev (Some newNode) oldTail m1) (\<lambda>m2.
           Inr (l1\<lparr>mem := m2, tail_ptr := Some newNode, size_cnt := size_cnt l1 + 1\<rparr>)))))"

text \<open>
  \<^verbatim>\<open>popFront\<close> and \<^verbatim>\<open>popBack\<close> return at once on a list without head; on the only
  node they reset both ends and then check that the counter has reached zero.
\<close>

definition popFront :: "'a LinkedList \<Rightarrow> 'a LinkedList res" where
  "popFront l =
     (case head_ptr l of None \<Rightarrow> Inr l
      | Some oldHead \<Rightarrow>
          bind_res (deref (mem l) (head_ptr l)) (\<lambda>hn.
            if next hn = None
            then
              let l1 = l\<lparr>mem := delete oldHead (mem l), head_ptr := None, tail_ptr := None,
                         size_cnt := size_cnt l - 1\<rparr>
              in if 0 \<noteq> size_cnt l1
                 then Inl (RuntimeError (''Error in popFront: '' @ LIST_GENERAL_BUG_MESSAGE))
                 else Inr l1
            else
              bind_res (set_prev (next hn) None (mem l)) (\<lambda>m1.
              Inr (l\<lparr>mem := delete oldHead m1, head_ptr := next hn, size_cnt := size_cnt l - 1\<rparr>))))"

definition popBack :: "'a LinkedList \<Rightarrow> 'a LinkedList res" where
  "popBack l =
     (case head_ptr l of None \<Rightarrow> Inr l
      | Some _ \<Rightarrow>
          (case tail_ptr l of None \<Rightarrow> Inl InvalidPointer
           | Some oldTail \<Rightarrow>
               bind_res (deref (mem l) (tail_ptr l)) (\<lambda>tn.
                 if prev tn = None
                 then
                   let l1 = l\<lparr>mem := delete oldTail (mem l), head_ptr := None,
                              tail_ptr := None, size_cnt := size_cnt l - 1\<rparr>
                   in if 0 \<noteq> size_cnt l1
                      then Inl (RuntimeError (''Error in popBack: '' @ LIST_GENERAL_BUG_MESSAGE))
                      else Inr l1
                 else
                   bind_res (set_next (prev tn) None (mem l)) (\<lambda>m1.
                   Inr (l\<lparr>mem := delete oldTail m1, tail_ptr := prev tn,
                          size_cnt := size_cnt l - 1\<rparr>)))))"

text \<open>
  The references that \<^verbatim>\<open>front()\<close> and \<^verbatim>\<open>back()\<close> return designate the data member of
  the head and of the tail node.  A caller that keeps such a reference reads and writes
  that member later; \<open>front_ref\<close> and \<open>back_ref\<close> give the node, \<open>read_data\<close> and
  \<open>write_data\<close> go through the reference.
\<close>

definition front_ref :: "'a LinkedList \<Rightarrow> addr res" where
  "front_ref l =
     (case head_ptr l of None \<Rightarrow> Inl (RuntimeError ''front() called on empty LinkedList'')
      | Some a \<Rightarrow> Inr a)"

definition back_ref :: "'a LinkedList \<Rightarrow> addr res" where
  "back_ref l =
     (case tail_ptr l of None \<Rightarrow> Inl (RuntimeError ''back() called on empty LinkedList'')
      | Some a \<Rightarrow> Inr a)"

definition read_data :: "addr \<Rightarrow> 'a LinkedList \<Rightarrow> 'a res" where
  "read_data a l = bind_res (deref (mem l) (Some a)) (\<lambda>n. Inr (data n))"

definition write_data :: "addr \<Rightarrow> 'a \<Rightarrow> 'a LinkedList \<Rightarrow> 'a LinkedList res" where
  "write_data a v l =
     bind_res (deref (mem l) (Some a)) (\<lambda>n. Inr (l\<lparr>mem := (mem l)(a \<mapsto> n\<lparr>data := v\<rparr>)\<rparr>))"

section \<open>Loops\<close>

text \<open>
  A \<^verbatim>\<open>while\<close> loop that follows pointers need not end on a chain that runs in a
  circle, so every such loop is a partial function: \<open>None\<close> is a run that never returns,
  \<open>Some (Inl e)\<close> a run that throws \<open>e\<close>, and \<open>Some (Inr x)\<close> a run that returns \<open>x\<close>.
\<close>

abbreviation Return :: "'a \<Rightarrow> 'a res option" where
  "Return x \<equiv> Some (Inr x)"

abbreviation Throw :: "error \<Rightarrow> 'a res option" where
  "Throw e \<equiv> Some (Inl e)"

definition bindM :: "'a res option \<Rightarrow> ('a \<Rightarrow> 'b res option) \<Rightarrow> 'b res option" where
  "bindM c f = (case c of None \<Rightarrow> None | Some (Inl e) \<Rightarrow> Some (Inl e) | Some (Inr x) \<Rightarrow> f x)"

lemma bindM_mono [partial_function_mono]:
  fixes B :: "('a \<Rightarrow> 'b option) \<Rightarrow> 'c res option"
    and C :: "'c \<Rightarrow> ('a \<Rightarrow> 'b option) \<Rightarrow> 'd res option"
  assumes mf: "mono_option B" and mg: "\<And>y. mono_option (\<lambda>f. C y f)"
  shows "mono_option (\<lambda>f. bindM (B f) (\<lambda>y. C y f))"
proof (rule monotoneI)
  fix f g :: "'a \<Rightarrow> 'b option"
  assume fg: "fun_ord option_ord f g"
  from mf fg have "option_ord (B f) (B g)"
    by (simp add: monotone_on_def)
  then have b: "B f = None \<or> B f = B g"
    by (simp add: flat_ord_def)
  from mg fg have "option_ord (C y f) (C y g)" for y
    by (simp add: monotone_on_def)
  then have c: "C y f = None \<or> C y f = C y g" for y
    by (simp add: flat_ord_def)
  show "option_ord (bindM (B f) (\<lambda>y. C y f)) (bindM (B g) (\<lambda>y. C y g))"
  proof (cases "B f")
    case None
    then show ?thesis by (simp add: bindM_def flat_ord_def)
  next
    case (Some r)
    with b have bg: "B g = Some r" by simp
    show ?thesis
    proof (cases r)
      case (Inl e)
      with Some bg show ?thesis by (simp add: bindM_def flat_ord_def)
    next
      case (Inr x)
      with Some bg c[of x] show ?thesis by (auto simp: bindM_def flat_ord_def)
    qed
  qed
qed

subsection \<open>\<^verbatim>\<open>clear\<close>, copy assignment and the copy constructor\<close>

partial_function (option) clear_loop :: "'a LinkedList \<Rightarrow> 'a LinkedList res option" where
  "clear_loop l =
     (if head_ptr l \<noteq> None then bindM (Some (popBack l)) (\<lambda>l'. clear_loop l') else Return l)"

definition clear :: "'a LinkedList \<Rightarrow> 'a LinkedList res option" where
  "clear l =
     bindM (clear_loop l) (\<lambda>l1.
       if 0 \<noteq> size_cnt l1
       then Throw (RuntimeError (''Error in clear: '' @ LIST_GENERAL_BUG_MESSAGE))
       else Return l1)"

text \<open>
  The parameter \<^verbatim>\<open>const LinkedList<T>& other\<close> of \<^verbatim>\<open>operator=\<close> is a reference: it
  designates either the object that is assigned to (\<open>Self\<close>) or a distinct object, which
  the assignment does not change.  \<open>referent this other\<close> is what is read through the
  reference while \<^verbatim>\<open>*this\<close> is in state \<open>this\<close>.
\<close>

datatype 'a reference = Self | Distinct "'a LinkedList"

fun referent :: "'a LinkedList \<Rightarrow> 'a reference \<Rightarrow> 'a LinkedList" where
  "referent this Self = this"
| "referent this (Distinct other) = other"

partial_function (option) assign_loop ::
  "'a LinkedList \<Rightarrow> 'a reference \<Rightarrow> addr option \<Rightarrow> 'a LinkedList res option" where
  "assign_loop this other cur =
     (case cur of None \<Rightarrow> Return this
      | Some _ \<Rightarrow>
          bindM (Some (deref (mem (referent this other)) cur)) (\<lambda>n.
          bindM (Some (pushBack (data n) this)) (\<lambda>this'.
          bindM (Some (deref (mem (referent this' other)) cur)) (\<lambda>n'.
          assign_loop this' other (next n')))))"

definition assign :: "'a LinkedList \<Rightarrow> 'a reference \<Rightarrow> 'a LinkedList res option" where
  "assign this other =
     bindM (clear this) (\<lambda>this1. assign_loop this1 other (head_ptr (referent this1 other)))"

text \<open>The copy constructor: the default constructor, then \<^verbatim>\<open>*this = other\<close>.\<close>

definition LinkedList_copy :: "'a LinkedList \<Rightarrow> 'a LinkedList res option" where
  "LinkedList_copy other = assign LinkedList_default (Distinct other)"

text \<open>
  \<^verbatim>\<open>pushBack\<close> on a list of lists: \<^verbatim>\<open>new Node(newData)\<close> copy-constructs the data
  member, which for an element of type \<^verbatim>\<open>LinkedList<T>\<close> is the copy constructor above.
\<close>

definition pushBack_list ::
  "'a LinkedList \<Rightarrow> 'a LinkedList LinkedList \<Rightarrow> 'a LinkedList LinkedList res option" where
  "pushBack_list newData ll = bindM (LinkedList_copy newData) (\<lambda>c. Some (pushBack c ll))"

subsection \<open>\<^verbatim>\<open>equals\<close> and \<^verbatim>\<open>isSorted\<close>\<close>

partial_function (option) equals_loop ::
  "'a heap \<Rightarrow> 'a heap \<Rightarrow> addr option \<Rightarrow> addr option \<Rightarrow> bool res option" where
  "equals_loop m m' thisCur otherCur =
     (case thisCur of None \<Rightarrow> Return True
      | Some _ \<Rightarrow>
          (case otherCur of
             None \<Rightarrow> Throw (RuntimeError
                       (''Error in equals: '' @ ''otherCur missing a node or wrong item count''))
           | Some _ \<Rightarrow>
               bindM (Some (deref m thisCur)) (\<lambda>tn.
               bindM (Some (deref m' otherCur)) (\<lambda>on.
               if data tn \<noteq> data on then Return False
               else equals_loop m m' (next tn) (next on)))))"

definition equals :: "'a LinkedList \<Rightarrow> 'a LinkedList \<Rightarrow> bool res option" where
  "equals this other =
     (if size_cnt this \<noteq> size_cnt other then Return False
      else equals_loop (mem this) (mem other) (head_ptr this) (head_ptr other))"

text \<open>
  The order \<^verbatim>\<open><=\<close> of the element type \<^verbatim>\<open>T\<close> is the parameter \<open>le\<close> of every
  function that compares elements.
\<close>

partial_function (option) isSorted_loop ::
  "('a \<Rightarrow> 'a \<Rightarrow> bool) \<Rightarrow> 'a heap \<Rightarrow> addr option \<Rightarrow> bool res option" where
  "isSorted_loop le m cur =
     bindM (Some (deref m cur)) (\<lambda>cn.
       if next cn \<noteq> None
       then bindM (Some (deref m (next cn))) (\<lambda>nn.
              if \<not> le (data cn) (data nn) then Return False
              else isSorted_loop le m (next cn))
       else Return True)"

definition isSorted :: "('a \<Rightarrow> 'a \<Rightarrow> bool) \<Rightarrow> 'a LinkedList \<Rightarrow> bool res option" where
  "isSorted le l =
     (if size_cnt l < 2 then Return True
      else if head_ptr l = None
      then Throw (RuntimeError (''Error in isSorted: '' @ LIST_GENERAL_BUG_MESSAGE))
      else isSorted_loop le (mem l) (head_ptr l))"

subsection \<open>\<^verbatim>\<open>splitHalves\<close> and \<^verbatim>\<open>explode\<close>\<close>

text \<open>
  The \<^verbatim>\<open>for\<close> loop of \<^verbatim>\<open>splitHalves\<close> runs \<^verbatim>\<open>rightHalfLength\<close> times; the first argument
  is the number of iterations still to run.
\<close>

fun splitHalves_loop ::
  "nat \<Rightarrow> 'a LinkedList \<Rightarrow> 'a LinkedList \<Rightarrow> ('a LinkedList \<times> 'a LinkedList) res" where
  "splitHalves_loop 0 leftHalf rightHalf = Inr (leftHalf, rightHalf)"
| "splitHalves_loop (Suc k) leftHalf rightHalf =
     bind_res (back_LL leftHalf) (\<lambda>dataToCopy.
     bind_res (pushFront dataToCopy rightHalf) (\<lambda>rightHalf'.
     bind_res (popBack leftHalf) (\<lambda>leftHalf'.
     splitHalves_loop k leftHalf' rightHalf')))"

definition splitHalves :: "'a LinkedList \<Rightarrow> 'a LinkedList LinkedList res option" where
  "splitHalves l =
     (let halves = LinkedList_default in
      bindM (LinkedList_copy l) (\<lambda>leftHalf.
      let rightHalf = LinkedList_default in
      if size_cnt l < 2
      then bindM (pushBack_list leftHalf halves) (\<lambda>halves1. pushBack_list rightHalf halves1)
      else
        let rightHalfLength = size_cnt l div 2 in
        bindM (Some (splitHalves_loop (nat rightHalfLength) leftHalf rightHalf))
          (\<lambda>(leftHalf', rightHalf').
             bindM (pushBack_list leftHalf' halves) (\<lambda>halves1.
             pushBack_list rightHalf' halves1))))"

partial_function (option) explode_loop ::
  "'a LinkedList \<Rightarrow> 'a LinkedList LinkedList \<Rightarrow> 'a LinkedList LinkedList res option" where
  "explode_loop workingCopy lists0 =
     (if \<not> empty_LL workingCopy
      then
        bindM (Some (front workingCopy)) (\<lambda>x.
        bindM (Some (pushBack x LinkedList_default)) (\<lambda>singletonList.
        bindM (Some (popFront workingCopy)) (\<lambda>workingCopy'.
        bindM (pushBack_list singletonList lists0) (\<lambda>lists1.
        explode_loop workingCopy' lists1))))
      else Return lists0)"

definition explode :: "'a LinkedList \<Rightarrow> 'a LinkedList LinkedList res option" where
  "explode l =
     bindM (LinkedList_copy l) (\<lambda>workingCopy. explode_loop workingCopy LinkedList_default)"

section \<open>Merging and sorting\<close>

text \<open>
  Modelled from the spec: \<^verbatim>\<open>LinkedList<T>::merge\<close>, which \<^verbatim>\<open>LinkedList.h\<close> only declares;
  its definition is in \<^verbatim>\<open>LinkedListExercises.h\<close>, which is not among the sources.  The
  spec asks for a new list with all elements of both lists, built by consuming both
  inputs from the front, taking from the first list when the two front elements
  compare equal, and never comparing against an element that is not there.  The
  function is \<^verbatim>\<open>const\<close> and takes a \<^verbatim>\<open>const\<close> reference, so it consumes working copies;
  it takes the front of \<open>left\<close> when \<open>le x y\<close> holds for the two fronts \<open>x\<close> and \<open>y\<close>.
\<close>

partial_function (option) merge_loop ::
  "('a \<Rightarrow> 'a \<Rightarrow> bool) \<Rightarrow> 'a LinkedList \<Rightarrow> 'a LinkedList \<Rightarrow> 'a LinkedList
     \<Rightarrow> 'a LinkedList res option" where
  "merge_loop le left right merged =
     (if empty_LL left \<and> empty_LL right then Return merged
      else
        bindM (if empty_LL right then Return True
               else if empty_LL left then Return False
               else bindM (Some (front left)) (\<lambda>x.
                    bindM (Some (front right)) (\<lambda>y. Return (le x y)))) (\<lambda>takeLeft.
        if takeLeft
        then bindM (Some (front left)) (\<lambda>x.
             bindM (Some (pushBack x merged)) (\<lambda>merged'.
             bindM (Some (popFront left)) (\<lambda>left'.
             merge_loop le left' right merged')))
        else bindM (Some (front right)) (\<lambda>y.
             bindM (Some (pushBack y merged)) (\<lambda>merged'.
             bindM (Some (popFront right)) (\<lambda>right'.
             merge_loop le left right' merged')))))"

text \<open>
  Modelled from the spec: the member function \<^verbatim>\<open>merge\<close> itself, which makes the two
  working copies and starts the loop above on a new, empty result list.
\<close>

definition merge ::
  "('a \<Rightarrow> 'a \<Rightarrow> bool) \<Rightarrow> 'a LinkedList \<Rightarrow> 'a LinkedList \<Rightarrow> 'a LinkedList res option" where
  "merge le this other =
     bindM (LinkedList_copy this) (\<lambda>left.
     bindM (LinkedList_copy other) (\<lambda>right.
     merge_loop le left right LinkedList_default))"

text \<open>
  \<^verbatim>\<open>mergeSortRecursive\<close> binds the references \<^verbatim>\<open>left\<close> and \<^verbatim>\<open>right\<close> to the data of the
  first and of the last node of \<^verbatim>\<open>halves\<close>, assigns each sorted half through its
  reference and merges what the two references then designate.
\<close>

partial_function (option) mergeSortRecursive ::
  "('a \<Rightarrow> 'a \<Rightarrow> bool) \<Rightarrow> 'a LinkedList \<Rightarrow> 'a LinkedList res option" where
  "mergeSortRecursive le l =
     (if size_cnt l < 2 then LinkedList_copy l
      else
        bindM (splitHalves l) (\<lambda>halves.
        bindM (Some (front_ref halves)) (\<lambda>left.
        bindM (Some (back_ref halves)) (\<lambda>right.
        bindM (Some (read_data left halves)) (\<lambda>leftVal.
        bindM (mergeSortRecursive le leftVal) (\<lambda>leftSorted.
        bindM (assign leftVal (Distinct leftSorted)) (\<lambda>leftVal'.
        bindM (Some (write_data left leftVal' halves)) (\<lambda>halves1.
        bindM (Some (read_data right halves1)) (\<lambda>rightVal.
        bindM (mergeSortRecursive le rightVal) (\<lambda>rightSorted.
        bindM (assign rightVal (Distinct rightSorted)) (\<lambda>rightVal'.
        bindM (Some (write_data right rightVal' halves1)) (\<lambda>halves2.
        bindM (Some (read_data left halves2)) (\<lambda>leftFinal.
        bindM (Some (read_data right halves2)) (\<lambda>rightFinal.
        merge le leftFinal rightFinal))))))))))))))"

text \<open>The body of the \<^verbatim>\<open>while\<close> loop of \<^verbatim>\<open>mergeSortIterative\<close>, then the loop.\<close>

definition mergeSortIterative_step ::
  "('a \<Rightarrow> 'a \<Rightarrow> bool) \<Rightarrow> 'a LinkedList LinkedList \<Rightarrow> 'a LinkedList LinkedList res option" where
  "mergeSortIterative_step le workQueue =
     bindM (Some (front workQueue)) (\<lambda>f1.
     bindM (LinkedList_copy f1) (\<lambda>left.
     bindM (Some (popFront workQueue)) (\<lambda>workQueue1.
     bindM (Some (front workQueue1)) (\<lambda>f2.
     bindM (LinkedList_copy f2) (\<lambda>right.
     bindM (Some (popFront workQueue1)) (\<lambda>workQueue2.
     bindM (merge le left right) (\<lambda>merged.
     pushBack_list merged workQueue2)))))))"

partial_function (option) mergeSortIterative_loop ::
  "('a \<Rightarrow> 'a \<Rightarrow> bool) \<Rightarrow> 'a LinkedList LinkedList \<Rightarrow> 'a LinkedList LinkedList res option" where
  "mergeSortIterative_loop le workQueue =
     (if size_LL workQueue > 1
      then bindM (mergeSortIterative_step le workQueue) (\<lambda>workQueue'.
             mergeSortIterative_loop le workQueue')
      else Return workQueue)"

definition mergeSortIterative ::
  "('a \<Rightarrow> 'a \<Rightarrow> bool) \<Rightarrow> 'a LinkedList \<Rightarrow> 'a LinkedList res option" where
  "mergeSortIterative le l =
     (if size_cnt l < 2 then LinkedList_copy l
      else
        bindM (explode l) (\<lambda>workQueue.
        bindM (mergeSortIterative_loop le workQueue) (\<lambda>workQueue'.
        bindM (Some (front workQueue')) (\<lambda>result. LinkedList_copy result))))"

definition mergeSort ::
  "('a \<Rightarrow> 'a \<Rightarrow> bool) \<Rightarrow> 'a LinkedList \<Rightarrow> 'a LinkedList res option" where
  "mergeSort le l = mergeSortRecursive le l"

section \<open>The two structural checks\<close>

partial_function (option) assertCorrectSize_loop ::
  "'a heap \<Rightarrow> addr option \<Rightarrow> int \<Rightarrow> int res option" where
  "assertCorrectSize_loop m cur itemCount =
     (case cur of None \<Rightarrow> Return itemCount
      | Some _ \<Rightarrow>
          bindM (Some (deref m cur)) (\<lambda>n. assertCorrectSize_loop m (next n) (itemCount + 1)))"

definition assertCorrectSize :: "'a LinkedList \<Rightarrow> bool res option" where
  "assertCorrectSize l =
     bindM (assertCorrectSize_loop (mem l) (head_ptr l) 0) (\<lambda>itemCount.
       if itemCount \<noteq> size_cnt l
       then Throw (RuntimeError (''Error in assertCorrectSize: '' @ LIST_GENERAL_BUG_MESSAGE))
       else Return True)"

partial_function (option) forward_loop ::
  "'a heap \<Rightarrow> addr option \<Rightarrow> addr LinkedList \<Rightarrow> addr LinkedList res option" where
  "forward_loop m cur forwardPtrList =
     (case cur of None \<Rightarrow> Return forwardPtrList
      | Some a \<Rightarrow>
          bindM (Some (pushBack a forwardPtrList)) (\<lambda>forwardPtrList'.
          bindM (Some (deref m cur)) (\<lambda>n. forward_loop m (next n) forwardPtrList')))"

partial_function (option) reverse_loop ::
  "'a heap \<Rightarrow> addr option \<Rightarrow> addr LinkedList \<Rightarrow> addr LinkedList res option" where
  "reverse_loop m cur reversePtrList =
     (case cur of None \<Rightarrow> Return reversePtrList
      | Some a \<Rightarrow>
          bindM (Some (pushFront a reversePtrList)) (\<lambda>reversePtrList'.
          bindM (Some (deref m cur)) (\<lambda>n. reverse_loop m (prev n) reversePtrList')))"

definition assertPrevLinks :: "'a LinkedList \<Rightarrow> bool res option" where
  "assertPrevLinks l =
     bindM (forward_loop (mem l) (head_ptr l) LinkedList_default) (\<lambda>forwardPtrList.
     bindM (reverse_loop (mem l) (tail_ptr l) LinkedList_default) (\<lambda>reversePtrList.
     bindM (equals forwardPtrList reversePtrList) (\<lambda>same.
       if same then Return True
       else Throw (RuntimeError (''Error in assertPrevLinks: '' @ LIST_GENERAL_BUG_MESSAGE)))))"

section \<open>The elements of a list\<close>

text \<open>
  \<^verbatim>\<open>print\<close> and \<^verbatim>\<open>insertionSort\<close> visit the elements with the loop
  \<^verbatim>\<open>cur = head_; while (cur) { ... cur->data ...; cur = cur->next; }\<close>.  \<open>elements\<close> is that
  loop, returning the data it meets.
\<close>

partial_function (option) elements_loop ::
  "'a heap \<Rightarrow> addr option \<Rightarrow> 'a list \<Rightarrow> 'a list res option" where
  "elements_loop m cur seen =
     (case cur of None \<Rightarrow> Return seen
      | Some _ \<Rightarrow> bindM (Some (deref m cur)) (\<lambda>n. elements_loop m (next n) (seen @ [data n])))"

definition elements :: "'a LinkedList \<Rightarrow> 'a list res option" where
  "elements l = elements_loop (mem l) (head_ptr l) []"

section \<open>The lists that the operations produce\<close>

text \<open>
  A list object starts as the result of a constructor and changes only through the
  operations that are not \<^verbatim>\<open>const\<close>: copy assignment (from another list or from itself),
  the two pushes, the two pops and \<^verbatim>\<open>clear\<close>.
\<close>

inductive reachable :: "'a LinkedList \<Rightarrow> bool" where
  default_ctor: "reachable LinkedList_default"
| copy_ctor: "reachable other \<Longrightarrow> LinkedList_copy other = Return l' \<Longrightarrow> reachable l'"
| assigned: "reachable l \<Longrightarrow> reachable other \<Longrightarrow> assign l (Distinct other) = Return l'
             \<Longrightarrow> reachable l'"
| self_assigned: "reachable l \<Longrightarrow> assign l Self = Return l' \<Longrightarrow> reachable l'"
| pushedFront: "reachable l \<Longrightarrow> pushFront v l = Inr l' \<Longrightarrow> reachable l'"
| pushedBack: "reachable l \<Longrightarrow> pushBack v l = Inr l' \<Longrightarrow> reachable l'"
| poppedFront: "reachable l \<Longrightarrow> popFront l = Inr l' \<Longrightarrow> reachable l'"
| poppedBack: "reachable l \<Longrightarrow> popBack l = Inr l' \<Longrightarrow> reachable l'"
| cleared: "reachable l \<Longrightarrow> clear l = Return l' \<Longrightarrow> reachable l'"

section \<open>The representation invariant\<close>

text \<open>
  \<open>linked m p as\<close>: the cells at the addresses \<open>as\<close> form a doubly linked chain in
  that order.  Each cell is allocated, its \<^verbatim>\<open>prev\<close> is the address before it (\<open>p\<close> for the
  first), its \<^verbatim>\<open>next\<close> is the address after it (null for the last), and no address
  occurs twice.
\<close>

fun linked :: "'a heap \<Rightarrow> addr option \<Rightarrow> addr list \<Rightarrow> bool" where
  "linked m p [] = True"
| "linked m p (a # as) =
     (case m a of None \<Rightarrow> False
      | Some n \<Rightarrow> prev n = p \<and> next n = (case as of [] \<Rightarrow> None | b # _ \<Rightarrow> Some b)
                  \<and> a \<notin> set as \<and> linked m (Some a) as)"

text \<open>
  A list is well formed along \<open>as\<close> when its nodes are linked in that order from a
  null \<^verbatim>\<open>prev\<close>, \<^verbatim>\<open>head_\<close> and \<^verbatim>\<open>tail_\<close> are the two ends (both null when there is no
  node), \<^verbatim>\<open>size_\<close> is the number of nodes, the list owns these cells and no others, and
  the allocator has not handed out an address beyond \<open>brk\<close>.
\<close>

definition well_formed :: "'a LinkedList \<Rightarrow> addr list \<Rightarrow> bool" where
  "well_formed l as \<longleftrightarrow>
     linked (mem l) None as
     \<and> head_ptr l = (case as of [] \<Rightarrow> None | a # _ \<Rightarrow> Some a)
     \<and> tail_ptr l = (if as = [] then None else Some (last as))
     \<and> size_cnt l = int (length as)
     \<and> dom (mem l) = set as
     \<and> (\<forall>a \<in> set as. a < brk l)"

text \<open>The data along a chain, and the sequence of elements that a list holds.\<close>

definition values_at :: "'a heap \<Rightarrow> addr list \<Rightarrow> 'a list" where
  "values_at m as = map (\<lambda>a. data (the (m a))) as"

definition holds :: "'a LinkedList \<Rightarrow> 'a list \<Rightarrow> bool" where
  "holds l xs \<longleftrightarrow> (\<exists>as. well_formed l as \<and> values_at (mem l) as = xs)"

text \<open>A list of lists holds a sequence of sequences when its elements hold them in turn.\<close>

definition holds2 :: "'a LinkedList LinkedList \<Rightarrow> 'a list list \<Rightarrow> bool" where
  "holds2 ll xss \<longleftrightarrow> (\<exists>ls. holds ll ls \<and> list_all2 holds ls xss)"

text \<open>
  The sequence that \<^verbatim>\<open>merge\<close> builds from two sequences, and the property of an order
  that it compares any two elements.
\<close>

fun merge_list :: "('a \<Rightarrow> 'a \<Rightarrow> bool) \<Rightarrow> 'a list \<Rightarrow> 'a list \<Rightarrow> 'a list" where
  "merge_list le [] ys = ys"
| "merge_list le xs [] = xs"
| "merge_list le (x # xs) (y # ys) =
     (if le x y then x # merge_list le xs (y # ys) else y # merge_list le (x # xs) ys)"

definition connex :: "('a \<Rightarrow> 'a \<Rightarrow> bool) \<Rightarrow> bool" where
  "connex le \<longleftrightarrow> (\<forall>x y. le x y \<or> le y x)"

section \<open>A list to try things on\<close>

text \<open>The list \<^verbatim>\<open>[5,3,8,1]\<close> as four calls of \<^verbatim>\<open>pushBack\<close> on a new list leave it.\<close>

definition example_list :: "int LinkedList" where
  "example_list =
     \<lparr>mem = [0 \<mapsto> \<lparr>next = Some 1, prev = None, data = 5\<rparr>,
             1 \<mapsto> \<lparr>next = Some 2, prev = Some 0, data = 3\<rparr>,
             2 \<mapsto> \<lparr>next = Some 3, prev = Some 1, data = 8\<rparr>,
             3 \<mapsto> \<lparr>next = None, prev = Some 2, data = 1\<rparr>],
      brk = 4, head_ptr = Some 0, tail_ptr = Some 3, size_cnt = 4\<rparr>"

text \<open>
  The same list after \<^verbatim>\<open>getHeadPtr()->next = nullptr\<close>, which the public members allow:
  the counter still says 4, the chain from the head has one node.
\<close>

definition truncated_list :: "int LinkedList" where
  "truncated_list =
     \<lparr>mem = [0 \<mapsto> \<lparr>next = None, prev = None, data = 5\<rparr>,
             1 \<mapsto> \<lparr>next = Some 2, prev = Some 0, data = 3\<rparr>,
             2 \<mapsto> \<lparr>next = Some 3, prev = Some 1, data = 8\<rparr>,
             3 \<mapsto> \<lparr>next = None, prev = Some 2, data = 1\<rparr>],
      brk = 4, head_ptr = Some 0, tail_ptr = Some 3, size_cnt = 4\<rparr>"

text \<open>A list with the single element 7.\<close>

definition singleton_list :: "int LinkedList" where
  "singleton_list =
     \<lparr>mem = [0 \<mapsto> \<lparr>next = None, prev = None, data = 7\<rparr>],
      brk = 1, head_ptr = Some 0, tail_ptr = Some 0, size_cnt = 1\<rparr>"

text \<open>The two sorted lists \<^verbatim>\<open>[1,3,5]\<close> and \<^verbatim>\<open>[2,2,4]\<close>.\<close>

definition list_135 :: "int LinkedList" where
  "list_135 =
     \<lparr>mem = [0 \<mapsto> \<lparr>next = Some 1, prev = None, data = 1\<rparr>,
             1 \<mapsto> \<lparr>next = Some 2, prev = Some 0, data = 3\<rparr>,
             2 \<mapsto> \<lparr>next = None, prev = Some 1, data = 5\<rparr>],
      brk = 3, head_ptr = Some 0, tail_ptr = Some 2, size_cnt = 3\<rparr>"

definition list_224 :: "int LinkedList" where
  "list_224 =
     \<lparr>mem = [0 \<mapsto> \<lparr>next = Some 1, prev = None, data = 2\<rparr>,
             1 \<mapsto> \<lparr>next = Some 2, prev = Some 0, data = 2\<rparr>,
             2 \<mapsto> \<lparr>next = None, prev = Some 1, data = 4\<rparr>],
      brk = 3, head_ptr = Some 0, tail_ptr = Some 2, size_cnt = 3\<rparr>"

text \<open>
  The list \<^verbatim>\<open>[5,3,1]\<close>, sorted the wrong way round, and a work queue of two lists with
  one element each.
\<close>

definition list_531 :: "int LinkedList" where
  "list_531 =
     \<lparr>mem = [0 \<mapsto> \<lparr>next = Some 1, prev = None, data = 5\<rparr>,
             1 \<mapsto> \<lparr>next = Some 2, prev = Some 0, data = 3\<rparr>,
             2 \<mapsto> \<lparr>next = None, prev = Some 1, data = 1\<rparr>],
      brk = 3, head_ptr = Some 0, tail_ptr = Some 2, size_cnt = 3\<rparr>"

definition example_queue :: "int LinkedList LinkedList" where
  "example_queue =
     \<lparr>mem = [0 \<mapsto> \<lparr>next = Some 1, prev = None, data = singleton_list\<rparr>,
             1 \<mapsto> \<lparr>next = None, prev = Some 0, data = singleton_list\<rparr>],
      brk = 2, head_ptr = Some 0, tail_ptr = Some 1, size_cnt = 2\<rparr>"

text \<open>
  Three pairs with the same first component, and the comparison of pairs by their first
  component only, under which the three tie without being equal.
\<close>

definition le_fst :: "int \<times> int \<Rightarrow> int \<times> int \<Rightarrow> bool" where
  "le_fst a b \<longleftrightarrow> fst a \<le> fst b"

definition tie_list :: "(int \<times> int) LinkedList" where
  "tie_list =
     \<lparr>mem = [0 \<mapsto> \<lparr>next = Some 1, prev = None, data = (1, 1)\<rparr>,
             1 \<mapsto> \<lparr>next = Some 2, prev = Some 0, data = (1, 2)\<rparr>,
             2 \<mapsto> \<lparr>next = None, prev = Some 1, data = (1, 3)\<rparr>],
      brk = 3, head_ptr = Some 0, tail_ptr = Some 2, size_cnt = 3\<rparr>"

text \<open>The equations of the loops are the code equations for evaluating them.\<close>

declare clear_loop.simps [code] assign_loop.simps [code] equals_loop.simps [code]
  isSorted_loop.simps [code] explode_loop.simps [code] merge_loop.simps [code]
  mergeSortRecursive.simps [code] mergeSortIterative_loop.simps [code]
  assertCorrectSize_loop.simps [code] forward_loop.simps [code] reverse_loop.simps [code]
  elements_loop.simps [code]

section \<open>Access to and removal from a list without nodes\<close>

text \<open>
  Claim C6.  On a list whose head and tail pointers are both null, \<^verbatim>\<open>front()\<close> and
  \<^verbatim>\<open>back()\<close> throw the \<^verbatim>\<open>std::runtime_error\<close> that names the empty list, an ordinary
  exception the caller can catch, while \<^verbatim>\<open>popFront()\<close> and \<^verbatim>\<open>popBack()\<close> return
  normally and leave the list exactly as it was.
\<close>

theorem empty_access_and_pop:
  assumes "head_ptr l = None" and "tail_ptr l = None"
  shows "front l = Inl (RuntimeError ''front() called on empty LinkedList'')
       \<and> back_LL l = Inl (RuntimeError ''back() called on empty LinkedList'')
       \<and> popFront l = Inr l
       \<and> popBack l = Inr l"
  using assms by (simp add: front_def back_LL_def popFront_def popBack_def)

theorem empty_access_and_pop_witness:
  "head_ptr (LinkedList_default :: nat LinkedList) = None
   \<and> tail_ptr (LinkedList_default :: nat LinkedList) = None
   \<and> front (LinkedList_default :: nat LinkedList)
       = Inl (RuntimeError ''front() called on empty LinkedList'')
   \<and> back_LL (LinkedList_default :: nat LinkedList)
       = Inl (RuntimeError ''back() called on empty LinkedList'')
   \<and> popFront (LinkedList_default :: nat LinkedList) = Inr LinkedList_default
   \<and> popBack (LinkedList_default :: nat LinkedList) = Inr LinkedList_default"
proof -
  have h: "head_ptr (LinkedList_default :: nat LinkedList) = None"
    and t: "tail_ptr (LinkedList_default :: nat LinkedList) = None"
    by (simp_all add: LinkedList_default_def)
  show ?thesis
    using h t empty_access_and_pop [OF h t] by simp
qed

section \<open>Chains of cells\<close>

lemma linked_upd_other: "a \<notin> set as \<Longrightarrow> linked (m(a := x)) p as = linked m p as"
  by (induction as arbitrary: p) (auto split: option.splits)

lemma linked_distinct: "linked m p as \<Longrightarrow> distinct as"
  by (induction as arbitrary: p) (auto split: option.splits)

lemma linked_dom: "linked m p as \<Longrightarrow> set as \<subseteq> dom m"
  by (induction as arbitrary: p) (auto split: option.splits)

lemma linked_Cons:
  "linked m p (a # as) \<longleftrightarrow>
     (\<exists>n. m a = Some n \<and> prev n = p \<and> next n = (case as of [] \<Rightarrow> None | b # _ \<Rightarrow> Some b)
        \<and> a \<notin> set as \<and> linked m (Some a) as)"
  by (simp split: option.split)

lemma linked_snoc:
  "linked m p as \<Longrightarrow> as \<noteq> [] \<Longrightarrow> m (last as) = Some n \<Longrightarrow> b \<notin> set as \<Longrightarrow>
   linked (m(last as \<mapsto> n\<lparr>next := Some b\<rparr>, b \<mapsto> \<lparr>next = None, prev = Some (last as), data = v\<rparr>)) p (as @ [b])"
proof (induction as arbitrary: p)
  case Nil
  then show ?case by simp
next
  case (Cons a as)
  from Cons.prems(1) obtain na where na: "m a = Some na" "prev na = p"
      "next na = (case as of [] \<Rightarrow> None | c # _ \<Rightarrow> Some c)" "a \<notin> set as" "linked m (Some a) as"
    unfolding linked_Cons by blast
  have b: "b \<notin> set as" "b \<noteq> a" using Cons.prems(4) by auto
  show ?case
  proof (cases as)
    case Nil
    with Cons.prems na show ?thesis by simp
  next
    case (Cons c cs)
    then have ne: "as \<noteq> []" and la: "last (a # as) = last as" by simp_all
    have neq: "last as \<noteq> a" using na(4) ne last_in_set by metis
    let ?m = "m(last as \<mapsto> n\<lparr>next := Some b\<rparr>, b \<mapsto> \<lparr>next = None, prev = Some (last as), data = v\<rparr>)"
    have l: "m (last as) = Some n" using Cons.prems(3) la by simp
    have ih: "linked ?m (Some a) (as @ [b])"
      by (rule Cons.IH[OF na(5) ne l b(1)])
    have ma: "?m a = Some na" using na(1) neq b(2) by simp
    have nx: "next na = (case as @ [b] of [] \<Rightarrow> None | c # _ \<Rightarrow> Some c)"
      using na(3) Cons by simp
    have "linked ?m p (a # (as @ [b]))"
      unfolding linked_Cons using ma na(2,4) nx b(2) ih by (intro exI[of _ na] conjI) simp_all
    then show ?thesis by (simp only: la append_Cons)
  qed
qed

lemma linked_last:
  "linked m p (as @ [b]) \<Longrightarrow>
   \<exists>n. m b = Some n \<and> next n = None \<and> prev n = (if as = [] then p else Some (last as))"
proof (induction as arbitrary: p)
  case Nil
  then show ?case by (simp split: option.splits)
next
  case (Cons a as)
  from Cons.prems have "linked m (Some a) (as @ [b])"
    by (simp split: option.splits)
  from Cons.IH[OF this] show ?case by auto
qed

lemma linked_butlast:
  "linked m p (as @ [b]) \<Longrightarrow> as \<noteq> [] \<Longrightarrow> m (last as) = Some n \<Longrightarrow>
   linked ((m(last as \<mapsto> n\<lparr>next := None\<rparr>))(b := None)) p as"
proof (induction as arbitrary: p)
  case Nil
  then show ?case by simp
next
  case (Cons a as)
  from Cons.prems(1) obtain na where na: "m a = Some na" "prev na = p"
      "next na = (case as @ [b] of [] \<Rightarrow> None | c # _ \<Rightarrow> Some c)" "a \<notin> set (as @ [b])"
      "linked m (Some a) (as @ [b])"
    unfolding append_Cons linked_Cons by blast
  have ab: "a \<noteq> b" "a \<notin> set as" using na(4) by auto
  show ?case
  proof (cases as)
    case Nil
    with Cons.prems na ab show ?thesis by simp
  next
    case (Cons c cs)
    then have ne: "as \<noteq> []" and la: "last (a # as) = last as" by simp_all
    have neq: "last as \<noteq> a" using ab(2) ne last_in_set by metis
    let ?m = "(m(last as \<mapsto> n\<lparr>next := None\<rparr>))(b := None)"
    have l: "m (last as) = Some n" using Cons.prems(3) la by simp
    have ih: "linked ?m (Some a) as"
      by (rule Cons.IH[OF na(5) ne l])
    have ma: "?m a = Some na" using na(1) neq ab(1) by simp
    have nx: "next na = (case as of [] \<Rightarrow> None | c # _ \<Rightarrow> Some c)"
      using na(3) Cons by simp
    have "linked ?m p (a # as)"
      unfolding linked_Cons using ma na(2) ab(2) nx ih by (intro exI[of _ na] conjI) simp_all
    then show ?thesis by (simp only: la append_Cons)
  qed
qed

section \<open>The four end operations on a well-formed list\<close>

lemma pushBack_empty_eq:
  "head_ptr l = None \<Longrightarrow>
   pushBack v l = Inr (l\<lparr>mem := (mem l)(brk l \<mapsto> \<lparr>next = None, prev = None, data = v\<rparr>),
                         brk := Suc (brk l), head_ptr := Some (brk l), tail_ptr := Some (brk l),
                         size_cnt := size_cnt l + 1\<rparr>)"
  by (simp add: pushBack_def new_Node_def)

lemma pushFront_empty_eq:
  "head_ptr l = None \<Longrightarrow>
   pushFront v l = Inr (l\<lparr>mem := (mem l)(brk l \<mapsto> \<lparr>next = None, prev = None, data = v\<rparr>),
                         brk := Suc (brk l), head_ptr := Some (brk l), tail_ptr := Some (brk l),
                         size_cnt := size_cnt l + 1\<rparr>)"
  by (simp add: pushFront_def new_Node_def)

lemma pushBack_nonempty_eq:
  assumes "head_ptr l \<noteq> None" "tail_ptr l = Some t" "mem l t = Some n" "t \<noteq> brk l"
  shows "pushBack v l =
     Inr (l\<lparr>mem := (mem l)(t \<mapsto> n\<lparr>next := Some (brk l)\<rparr>,
                             brk l \<mapsto> \<lparr>next = None, prev = Some t, data = v\<rparr>),
            brk := Suc (brk l), tail_ptr := Some (brk l), size_cnt := size_cnt l + 1\<rparr>)"
proof -
  have "(mem l)(brk l \<mapsto> \<lparr>next = None, prev = None, data = v\<rparr>, t \<mapsto> n\<lparr>next := Some (brk l)\<rparr>,
                brk l \<mapsto> \<lparr>next = None, prev = Some t, data = v\<rparr>)
      = (mem l)(t \<mapsto> n\<lparr>next := Some (brk l)\<rparr>, brk l \<mapsto> \<lparr>next = None, prev = Some t, data = v\<rparr>)"
    using assms(4) by (auto simp: fun_eq_iff)
  then show ?thesis
    using assms
    by (auto simp: pushBack_def new_Node_def Let_def bind_res_def set_next_def set_prev_def)
qed

lemma pushFront_nonempty_eq:
  assumes "head_ptr l = Some h" "mem l h = Some n" "h \<noteq> brk l"
  shows "pushFront v l =
     Inr (l\<lparr>mem := (mem l)(h \<mapsto> n\<lparr>prev := Some (brk l)\<rparr>,
                             brk l \<mapsto> \<lparr>next = Some h, prev = None, data = v\<rparr>),
            brk := Suc (brk l), head_ptr := Some (brk l), size_cnt := size_cnt l + 1\<rparr>)"
proof -
  have "(mem l)(brk l \<mapsto> \<lparr>next = None, prev = None, data = v\<rparr>, h \<mapsto> n\<lparr>prev := Some (brk l)\<rparr>,
                brk l \<mapsto> \<lparr>next = Some h, prev = None, data = v\<rparr>)
      = (mem l)(h \<mapsto> n\<lparr>prev := Some (brk l)\<rparr>, brk l \<mapsto> \<lparr>next = Some h, prev = None, data = v\<rparr>)"
    using assms(3) by (auto simp: fun_eq_iff)
  then show ?thesis
    using assms
    by (simp add: pushFront_def new_Node_def Let_def bind_res_def set_next_def set_prev_def)
qed

lemma popBack_single_eq:
  assumes "head_ptr l \<noteq> None" "tail_ptr l = Some t" "mem l t = Some n" "prev n = None"
    "size_cnt l = 1"
  shows "popBack l = Inr (l\<lparr>mem := (mem l)(t := None), head_ptr := None, tail_ptr := None,
                            size_cnt := 0\<rparr>)"
  using assms by (auto simp: popBack_def bind_res_def deref_def delete_def Let_def)

lemma popFront_single_eq:
  assumes "head_ptr l = Some h" "mem l h = Some n" "next n = None" "size_cnt l = 1"
  shows "popFront l = Inr (l\<lparr>mem := (mem l)(h := None), head_ptr := None, tail_ptr := None,
                            size_cnt := 0\<rparr>)"
  using assms by (auto simp: popFront_def bind_res_def deref_def delete_def Let_def)

lemma popBack_many_eq:
  assumes "head_ptr l \<noteq> None" "tail_ptr l = Some t" "mem l t = Some n" "prev n = Some q"
    "mem l q = Some nq"
  shows "popBack l = Inr (l\<lparr>mem := (mem l)(q \<mapsto> nq\<lparr>next := None\<rparr>, t := None),
                            tail_ptr := Some q, size_cnt := size_cnt l - 1\<rparr>)"
  using assms by (auto simp: popBack_def bind_res_def deref_def delete_def set_next_def)

lemma popFront_many_eq:
  assumes "head_ptr l = Some h" "mem l h = Some n" "next n = Some q" "mem l q = Some nq"
  shows "popFront l = Inr (l\<lparr>mem := (mem l)(q \<mapsto> nq\<lparr>prev := None\<rparr>, h := None),
                            head_ptr := Some q, size_cnt := size_cnt l - 1\<rparr>)"
  using assms by (auto simp: popFront_def bind_res_def deref_def delete_def set_prev_def)

lemma values_at_cong:
  "(\<And>a. a \<in> set as \<Longrightarrow> data (the (m' a)) = data (the (m a))) \<Longrightarrow>
   values_at m' as = values_at m as"
  by (simp add: values_at_def)

lemma values_at_append [simp]: "values_at m (as @ bs) = values_at m as @ values_at m bs"
  by (simp add: values_at_def)

lemma values_at_Cons [simp]: "values_at m (a # as) = data (the (m a)) # values_at m as"
  by (simp add: values_at_def)

lemma values_at_Nil [simp]: "values_at m [] = []"
  by (simp add: values_at_def)

lemma length_values_at [simp]: "length (values_at m as) = length as"
  by (simp add: values_at_def)

lemma well_formed_fresh:
  "well_formed l as \<Longrightarrow> brk l \<notin> set as"
  by (auto simp: well_formed_def)

lemma well_formed_cell:
  "well_formed l as \<Longrightarrow> a \<in> set as \<Longrightarrow> \<exists>n. mem l a = Some n"
  by (auto simp: well_formed_def)

lemma pushBack_well_formed:
  assumes wf: "well_formed l as"
  shows "\<exists>l'. pushBack v l = Inr l' \<and> well_formed l' (as @ [brk l])
           \<and> values_at (mem l') (as @ [brk l]) = values_at (mem l) as @ [v]"
proof (cases "as = []")
  case True
  with wf have h: "head_ptr l = None" and d: "dom (mem l) = {}"
    by (simp_all add: well_formed_def)
  show ?thesis
    unfolding pushBack_empty_eq[OF h] using True wf d
    by (simp add: well_formed_def)
next
  case False
  let ?t = "last as" and ?b = "brk l"
  have t_in: "?t \<in> set as" using False by simp
  then obtain n where n: "mem l ?t = Some n" using well_formed_cell[OF wf] by blast
  have tb: "?t \<noteq> ?b" using t_in well_formed_fresh[OF wf] by auto
  have h: "head_ptr l \<noteq> None" and t: "tail_ptr l = Some ?t"
    using wf False by (auto simp: well_formed_def split: list.splits)
  let ?m = "(mem l)(?t \<mapsto> n\<lparr>next := Some ?b\<rparr>, ?b \<mapsto> \<lparr>next = None, prev = Some ?t, data = v\<rparr>)"
  have lk: "linked ?m None (as @ [?b])"
    using wf False n well_formed_fresh[OF wf] by (intro linked_snoc) (simp_all add: well_formed_def)
  have dm: "dom ?m = set (as @ [?b])"
    using wf t_in by (auto simp: well_formed_def)
  have vs: "values_at ?m as = values_at (mem l) as"
    using n tb well_formed_fresh[OF wf] by (intro values_at_cong) auto
  show ?thesis
    unfolding pushBack_nonempty_eq[OF h t n tb]
    using wf False lk dm vs
    by (auto simp: well_formed_def split: list.splits)
qed

lemma pushFront_well_formed:
  assumes wf: "well_formed l as"
  shows "\<exists>l'. pushFront v l = Inr l' \<and> well_formed l' (brk l # as)
           \<and> values_at (mem l') (brk l # as) = v # values_at (mem l) as"
proof (cases as)
  case Nil
  with wf have h: "head_ptr l = None" and d: "dom (mem l) = {}"
    by (simp_all add: well_formed_def)
  show ?thesis
    unfolding pushFront_empty_eq[OF h] using Nil wf d
    by (simp add: well_formed_def)
next
  case (Cons h rest)
  let ?b = "brk l"
  have hd: "head_ptr l = Some h" using wf Cons by (simp add: well_formed_def)
  have lk0: "linked (mem l) None (h # rest)" using wf Cons by (simp add: well_formed_def)
  then obtain n where n: "mem l h = Some n" "next n = (case rest of [] \<Rightarrow> None | c # _ \<Rightarrow> Some c)"
      "h \<notin> set rest" "linked (mem l) (Some h) rest"
    unfolding linked_Cons by blast
  have fresh: "?b \<noteq> h" "?b \<notin> set rest" using well_formed_fresh[OF wf] Cons by auto
  let ?m = "(mem l)(h \<mapsto> n\<lparr>prev := Some ?b\<rparr>, ?b \<mapsto> \<lparr>next = Some h, prev = None, data = v\<rparr>)"
  have "linked ?m (Some h) rest"
    using n(3,4) fresh(2) by (simp add: linked_upd_other)
  then have "linked ?m (Some ?b) (h # rest)"
    unfolding linked_Cons using n fresh by simp
  then have lk: "linked ?m None (?b # h # rest)"
    unfolding linked_Cons[of _ _ ?b] using fresh by simp
  have dm: "dom ?m = set (?b # h # rest)"
    using wf Cons by (auto simp: well_formed_def)
  have vs: "values_at ?m (h # rest) = values_at (mem l) (h # rest)"
    using n fresh by (intro values_at_cong) auto
  have hb: "h \<noteq> ?b" using fresh by simp
  have vs': "values_at ?m (?b # h # rest) = v # values_at (mem l) (h # rest)"
    using vs by simp
  show ?thesis
    unfolding pushFront_nonempty_eq[OF hd n(1) hb] Cons
    using wf Cons lk dm vs' fresh
    by (auto simp: well_formed_def simp del: linked.simps values_at_Cons)
qed

lemma popFront_well_formed:
  assumes wf: "well_formed l (h # rest)"
  shows "\<exists>l'. popFront l = Inr l' \<and> well_formed l' rest
           \<and> values_at (mem l') rest = values_at (mem l) rest \<and> brk l' = brk l"
proof -
  have hd: "head_ptr l = Some h" using wf by (simp add: well_formed_def)
  have "linked (mem l) None (h # rest)" using wf by (simp add: well_formed_def)
  then obtain n where n: "mem l h = Some n" "next n = (case rest of [] \<Rightarrow> None | c # _ \<Rightarrow> Some c)"
      "h \<notin> set rest" "linked (mem l) (Some h) rest"
    unfolding linked_Cons by blast
  show ?thesis
  proof (cases rest)
    case Nil
    have sz: "size_cnt l = 1" using wf Nil by (simp add: well_formed_def)
    have nx: "next n = None" using n(2) Nil by simp
    have dm: "dom ((mem l)(h := None)) = {}" using wf Nil by (auto simp: well_formed_def)
    show ?thesis
      unfolding popFront_single_eq[OF hd n(1) nx sz] using wf Nil dm
      by (simp add: well_formed_def del: dom_eq_empty_conv)
  next
    case (Cons q rest')
    have nx: "next n = Some q" using n(2) Cons by simp
    from n(4)[unfolded Cons linked_Cons] obtain nq where nq: "mem l q = Some nq" "prev nq = Some h"
        "next nq = (case rest' of [] \<Rightarrow> None | c # _ \<Rightarrow> Some c)"
        "q \<notin> set rest'" "linked (mem l) (Some q) rest'"
      by blast
    have qh: "q \<noteq> h" "h \<notin> set rest'" using n(3) Cons by auto
    let ?m = "(mem l)(q \<mapsto> nq\<lparr>prev := None\<rparr>, h := None)"
    have "linked ?m (Some q) rest'"
      using nq(4,5) qh(2) by (simp add: linked_upd_other)
    then have lk: "linked ?m None (q # rest')"
      unfolding linked_Cons using nq qh by simp
    have dm: "dom ?m = set (q # rest')"
      using wf Cons n(3) by (auto simp: well_formed_def)
    have vs: "values_at ?m (q # rest') = values_at (mem l) (q # rest')"
      using nq qh by (intro values_at_cong) auto
    show ?thesis
      unfolding popFront_many_eq[OF hd n(1) nx nq(1)] Cons
      using wf Cons lk dm vs
      by (auto simp: well_formed_def simp del: linked.simps values_at_Cons)
  qed
qed

lemma popBack_well_formed:
  assumes wf: "well_formed l (as @ [t])"
  shows "\<exists>l'. popBack l = Inr l' \<and> well_formed l' as
           \<and> values_at (mem l') as = values_at (mem l) as \<and> brk l' = brk l"
proof -
  have hd: "head_ptr l \<noteq> None" using wf by (auto simp: well_formed_def split: list.splits)
  have tl: "tail_ptr l = Some t" using wf by (simp add: well_formed_def)
  have lk0: "linked (mem l) None (as @ [t])" using wf by (simp add: well_formed_def)
  from linked_last[OF lk0] obtain n where n: "mem l t = Some n" "next n = None"
      "prev n = (if as = [] then None else Some (last as))" by blast
  have t_notin: "t \<notin> set as" using linked_distinct[OF lk0] by simp
  show ?thesis
  proof (cases "as = []")
    case True
    have sz: "size_cnt l = 1" using wf True by (simp add: well_formed_def)
    have pv: "prev n = None" using n(3) True by simp
    have dm: "dom ((mem l)(t := None)) = {}" using wf True by (auto simp: well_formed_def)
    show ?thesis
      unfolding popBack_single_eq[OF hd tl n(1) pv sz] using wf True dm
      by (simp add: well_formed_def del: dom_eq_empty_conv)
  next
    case False
    let ?q = "last as"
    have pv: "prev n = Some ?q" using n(3) False by simp
    have q_in: "?q \<in> set as" using False by simp
    then obtain nq where nq: "mem l ?q = Some nq"
      using well_formed_cell[OF wf, of ?q] by auto
    let ?m = "(mem l)(?q \<mapsto> nq\<lparr>next := None\<rparr>, t := None)"
    have lk: "linked ?m None as"
      by (rule linked_butlast[OF lk0 False nq])
    have dm: "dom ?m = set as"
      using wf q_in t_notin by (auto simp: well_formed_def)
    have vs: "values_at ?m as = values_at (mem l) as"
      using nq t_notin by (intro values_at_cong) auto
    show ?thesis
      unfolding popBack_many_eq[OF hd tl n(1) pv nq]
      using wf False lk dm vs
      by (auto simp: well_formed_def split: list.splits)
  qed
qed

lemma front_well_formed:
  "well_formed l (h # rest) \<Longrightarrow> front l = Inr (data (the (mem l h)))"
  by (auto simp: well_formed_def front_def deref_def bind_res_def split: option.splits)

lemma back_well_formed:
  assumes "well_formed l (as @ [t])"
  shows "back_LL l = Inr (data (the (mem l t)))"
proof -
  have "linked (mem l) None (as @ [t])" using assms by (simp add: well_formed_def)
  from linked_last[OF this] obtain n where "mem l t = Some n" by blast
  then show ?thesis
    using assms by (simp add: well_formed_def back_LL_def deref_def bind_res_def)
qed

section \<open>Element sequences\<close>

lemma holds_default: "holds LinkedList_default []"
  unfolding holds_def by (rule exI[of _ "[]"]) (simp add: well_formed_def LinkedList_default_def)

lemma holds_size: "holds l xs \<Longrightarrow> size_cnt l = int (length xs)"
  by (auto simp: holds_def well_formed_def)

lemma holds_head: "holds l xs \<Longrightarrow> head_ptr l = None \<longleftrightarrow> xs = []"
proof -
  assume "holds l xs"
  then obtain as where as: "well_formed l as" "values_at (mem l) as = xs"
    unfolding holds_def by blast
  then show ?thesis by (cases as) (auto simp: well_formed_def)
qed

lemma holds_tail: "holds l xs \<Longrightarrow> tail_ptr l = None \<longleftrightarrow> xs = []"
proof -
  assume "holds l xs"
  then obtain as where as: "well_formed l as" "values_at (mem l) as = xs"
    unfolding holds_def by blast
  then show ?thesis by (cases as) (auto simp: well_formed_def)
qed

lemma holds_empty: "holds l xs \<Longrightarrow> empty_LL l \<longleftrightarrow> xs = []"
  by (simp add: empty_LL_def holds_head)

lemma holds_pushBack:
  assumes "holds l xs"
  shows "\<exists>l'. pushBack v l = Inr l' \<and> holds l' (xs @ [v])"
proof -
  from assms obtain as where as: "well_formed l as" "values_at (mem l) as = xs"
    unfolding holds_def by blast
  from pushBack_well_formed[OF as(1), of v] as(2) show ?thesis
    unfolding holds_def by blast
qed

lemma holds_pushFront:
  assumes "holds l xs"
  shows "\<exists>l'. pushFront v l = Inr l' \<and> holds l' (v # xs)"
proof -
  from assms obtain as where as: "well_formed l as" "values_at (mem l) as = xs"
    unfolding holds_def by blast
  from pushFront_well_formed[OF as(1), of v] as(2) show ?thesis
    unfolding holds_def by blast
qed

lemma holds_popFront:
  assumes "holds l (x # xs)"
  shows "\<exists>l'. popFront l = Inr l' \<and> holds l' xs"
proof -
  from assms obtain as where as: "well_formed l as" "values_at (mem l) as = x # xs"
    unfolding holds_def by blast
  then obtain h rest where c: "as = h # rest" by (cases as) auto
  from popFront_well_formed[OF as(1)[unfolded c]] as(2) c show ?thesis
    unfolding holds_def by auto
qed

lemma holds_popBack:
  assumes "holds l (xs @ [x])"
  shows "\<exists>l'. popBack l = Inr l' \<and> holds l' xs"
proof -
  from assms obtain as where as: "well_formed l as" "values_at (mem l) as = xs @ [x]"
    unfolding holds_def by blast
  then have "as \<noteq> []" by auto
  then obtain rest t where c: "as = rest @ [t]" by (metis append_butlast_last_id)
  from popBack_well_formed[OF as(1)[unfolded c]] as(2) c show ?thesis
    unfolding holds_def by auto
qed

lemma holds_front: "holds l (x # xs) \<Longrightarrow> front l = Inr x"
proof -
  assume "holds l (x # xs)"
  then obtain as where as: "well_formed l as" "values_at (mem l) as = x # xs"
    unfolding holds_def by blast
  then obtain h rest where c: "as = h # rest" by (cases as) auto
  from front_well_formed[OF as(1)[unfolded c]] as(2) c show ?thesis by simp
qed

lemma holds_back: "holds l (xs @ [x]) \<Longrightarrow> back_LL l = Inr x"
proof -
  assume "holds l (xs @ [x])"
  then obtain as where as: "well_formed l as" "values_at (mem l) as = xs @ [x]"
    unfolding holds_def by blast
  then have "as \<noteq> []" by auto
  then obtain rest t where c: "as = rest @ [t]" by (metis append_butlast_last_id)
  from back_well_formed[OF as(1)[unfolded c]] as(2) c show ?thesis by simp
qed

lemma holds_popFront_Nil: "holds l [] \<Longrightarrow> popFront l = Inr l"
  using holds_head[of l "[]"] by (simp add: popFront_def)

lemma holds_popBack_Nil: "holds l [] \<Longrightarrow> popBack l = Inr l"
  using holds_head[of l "[]"] by (simp add: popBack_def)

lemma linked_unique:
  "linked m p as \<Longrightarrow> linked m p bs \<Longrightarrow>
   (case as of [] \<Rightarrow> None | a # _ \<Rightarrow> Some a) = (case bs of [] \<Rightarrow> None | a # _ \<Rightarrow> Some a) \<Longrightarrow>
   as = bs"
proof (induction as arbitrary: p bs)
  case Nil
  then show ?case by (cases bs) auto
next
  case (Cons a as)
  then obtain bs' where bs: "bs = a # bs'" by (cases bs) auto
  from Cons.prems(1) obtain n where n: "m a = Some n"
      "next n = (case as of [] \<Rightarrow> None | c # _ \<Rightarrow> Some c)" "linked m (Some a) as"
    unfolding linked_Cons by blast
  from Cons.prems(2) bs n(1) have n': "next n = (case bs' of [] \<Rightarrow> None | c # _ \<Rightarrow> Some c)"
      "linked m (Some a) bs'"
    unfolding linked_Cons by auto
  from Cons.IH[OF n(3) n'(2)] n(2) n'(1) bs show ?case by simp
qed

lemma well_formed_unique: "well_formed l as \<Longrightarrow> well_formed l bs \<Longrightarrow> as = bs"
  by (rule linked_unique[of "mem l" None]) (simp_all add: well_formed_def)

lemma holds_unique: "holds l xs \<Longrightarrow> holds l ys \<Longrightarrow> xs = ys"
  unfolding holds_def using well_formed_unique by blast

lemma well_formed_brk:
  "well_formed l as \<Longrightarrow> brk l \<le> k \<Longrightarrow> well_formed (l\<lparr>brk := k\<rparr>) as"
  by (auto simp: well_formed_def)

lemma holds_brk: "holds l xs \<Longrightarrow> brk l \<le> k \<Longrightarrow> holds (l\<lparr>brk := k\<rparr>) xs"
  unfolding holds_def using well_formed_brk by fastforce

lemma pushBack_popBack_eq:
  assumes wf: "well_formed l as"
  shows "bind_res (pushBack v l) popBack = Inr (l\<lparr>brk := Suc (brk l)\<rparr>)"
proof (cases "as = []")
  case True
  with wf have h: "head_ptr l = None" and t: "tail_ptr l = None" and d: "mem l (brk l) = None"
    and s: "size_cnt l = 0"
    by (auto simp: well_formed_def)
  have m: "(mem l)(brk l := None) = mem l" using d by (auto simp: fun_eq_iff)
  show ?thesis
    unfolding pushBack_empty_eq[OF h] bind_res_def
    using h t s m by (simp add: popBack_def deref_def bind_res_def delete_def)
next
  case False
  let ?t = "last as" and ?b = "brk l"
  have t_in: "?t \<in> set as" using False by simp
  from False obtain rest where r: "as = rest @ [?t]" by (metis append_butlast_last_id)
  have "linked (mem l) None (rest @ [?t])" using wf r by (simp add: well_formed_def)
  from linked_last[OF this] obtain n where n: "mem l ?t = Some n" "next n = None" by blast
  have tb: "?t \<noteq> ?b" using t_in well_formed_fresh[OF wf] by auto
  have d: "mem l ?b = None" using wf well_formed_fresh[OF wf] by (auto simp: well_formed_def)
  have h: "head_ptr l \<noteq> None" and t: "tail_ptr l = Some ?t"
    using wf False by (auto simp: well_formed_def split: list.splits)
  have n0: "n\<lparr>next := None\<rparr> = n" using n(2) by simp
  have m: "(mem l)(?t \<mapsto> n, ?b := None) = mem l" using d n(1) by (auto simp: fun_eq_iff)
  show ?thesis
    unfolding pushBack_nonempty_eq[OF h t n(1) tb] bind_res_def
    using h t tb n0 m
    by (auto simp: popBack_def deref_def bind_res_def delete_def set_next_def)
qed

lemma pushFront_popFront_eq:
  assumes wf: "well_formed l as"
  shows "bind_res (pushFront v l) popFront = Inr (l\<lparr>brk := Suc (brk l)\<rparr>)"
proof (cases as)
  case Nil
  with wf have h: "head_ptr l = None" and t: "tail_ptr l = None" and d: "mem l (brk l) = None"
    and s: "size_cnt l = 0"
    by (auto simp: well_formed_def)
  have m: "(mem l)(brk l := None) = mem l" using d by (auto simp: fun_eq_iff)
  show ?thesis
    unfolding pushFront_empty_eq[OF h] bind_res_def
    using h t s m by (simp add: popFront_def deref_def bind_res_def delete_def)
next
  case (Cons h rest)
  let ?b = "brk l"
  have hd: "head_ptr l = Some h" using wf Cons by (simp add: well_formed_def)
  have "linked (mem l) None (h # rest)" using wf Cons by (simp add: well_formed_def)
  then obtain n where n: "mem l h = Some n" "prev n = None"
    unfolding linked_Cons by blast
  have hb: "h \<noteq> ?b" using well_formed_fresh[OF wf] Cons by auto
  have d: "mem l ?b = None" using wf well_formed_fresh[OF wf] by (auto simp: well_formed_def)
  have n0: "n\<lparr>prev := None\<rparr> = n" using n(2) by simp
  have m: "(mem l)(h \<mapsto> n, ?b := None) = mem l" using d n(1) by (auto simp: fun_eq_iff)
  show ?thesis
    unfolding pushFront_nonempty_eq[OF hd n(1) hb] bind_res_def
    using hd hb n0 m
    by (auto simp: popFront_def deref_def bind_res_def delete_def set_prev_def)
qed

section \<open>The example list\<close>

lemma example_list_built:
  "bind_res (pushBack 5 LinkedList_default) (\<lambda>l1.
   bind_res (pushBack 3 l1) (\<lambda>l2.
   bind_res (pushBack 8 l2) (\<lambda>l3. pushBack 1 l3))) = Inr example_list"
  by (simp add: example_list_def LinkedList_default_def pushBack_def new_Node_def bind_res_def
        set_next_def set_prev_def Let_def fun_eq_iff)

lemma holds_example_list: "holds example_list [5, 3, 8, 1]"
  unfolding holds_def
  by (rule exI[of _ "[0, 1, 2, 3]"]) (auto simp: well_formed_def example_list_def)

section \<open>A push undone by the pop at the same end\<close>

text \<open>
  Claim C7.  On a list that holds the sequence \<open>xs\<close>, \<^verbatim>\<open>pushBack(v)\<close> followed at once
  by \<^verbatim>\<open>popBack()\<close> returns normally and leaves a list that holds \<open>xs\<close> again and has
  the size it had; so does \<^verbatim>\<open>pushFront(v)\<close> followed by \<^verbatim>\<open>popFront()\<close>.  Both pointers,
  the counter and every node cell are the ones from before the push; only the allocator
  of the model has moved on by one address.
\<close>

theorem push_then_pop_restores:
  assumes "holds l xs"
  shows "(\<exists>l1 l2. pushBack v l = Inr l1 \<and> popBack l1 = Inr l2
            \<and> l2 = l\<lparr>brk := Suc (brk l)\<rparr> \<and> holds l2 xs \<and> size_LL l2 = size_LL l)
       \<and> (\<exists>l1 l2. pushFront v l = Inr l1 \<and> popFront l1 = Inr l2
            \<and> l2 = l\<lparr>brk := Suc (brk l)\<rparr> \<and> holds l2 xs \<and> size_LL l2 = size_LL l)"
proof -
  from assms obtain as where wf: "well_formed l as"
    unfolding holds_def by blast
  have h: "holds (l\<lparr>brk := Suc (brk l)\<rparr>) xs"
    using assms by (rule holds_brk) simp
  have s: "size_LL (l\<lparr>brk := Suc (brk l)\<rparr>) = size_LL l"
    by (simp add: size_LL_def)
  from holds_pushBack[OF assms, of v] obtain l1 where l1: "pushBack v l = Inr l1" by blast
  with pushBack_popBack_eq[OF wf, of v] have "popBack l1 = Inr (l\<lparr>brk := Suc (brk l)\<rparr>)"
    by (simp add: bind_res_def)
  with l1 h s have pb: "\<exists>l1 l2. pushBack v l = Inr l1 \<and> popBack l1 = Inr l2
            \<and> l2 = l\<lparr>brk := Suc (brk l)\<rparr> \<and> holds l2 xs \<and> size_LL l2 = size_LL l"
    by blast
  from holds_pushFront[OF assms, of v] obtain l1' where l1': "pushFront v l = Inr l1'" by blast
  with pushFront_popFront_eq[OF wf, of v] have "popFront l1' = Inr (l\<lparr>brk := Suc (brk l)\<rparr>)"
    by (simp add: bind_res_def)
  with l1' h s have "\<exists>l1 l2. pushFront v l = Inr l1 \<and> popFront l1 = Inr l2
            \<and> l2 = l\<lparr>brk := Suc (brk l)\<rparr> \<and> holds l2 xs \<and> size_LL l2 = size_LL l"
    by blast
  with pb show ?thesis by blast
qed

theorem push_then_pop_restores_witness:
  "holds example_list [5, 3, 8, 1]
   \<and> (\<exists>l1 l2. pushBack 7 example_list = Inr l1 \<and> popBack l1 = Inr l2
         \<and> l2 = example_list\<lparr>brk := Suc (brk example_list)\<rparr> \<and> holds l2 [5, 3, 8, 1]
         \<and> size_LL l2 = size_LL example_list)
   \<and> (\<exists>l1 l2. pushFront 7 example_list = Inr l1 \<and> popFront l1 = Inr l2
         \<and> l2 = example_list\<lparr>brk := Suc (brk example_list)\<rparr> \<and> holds l2 [5, 3, 8, 1]
         \<and> size_LL l2 = size_LL example_list)"
  using holds_example_list push_then_pop_restores[OF holds_example_list, of 7] by blast

section \<open>Running the loops on well-formed lists\<close>

lemma bindM_Return [simp]: "bindM (Return x) f = f x"
  by (simp add: bindM_def)

lemma bindM_Throw [simp]: "bindM (Throw e) f = Throw e"
  by (simp add: bindM_def)

lemma bindM_None [simp]: "bindM None f = None"
  by (simp add: bindM_def)

lemma clear_loop_holds:
  "holds l xs \<Longrightarrow> \<exists>l'. clear_loop l = Return l' \<and> holds l' []"
proof (induction xs arbitrary: l rule: rev_induct)
  case Nil
  then have "head_ptr l = None" by (simp add: holds_head)
  with Nil show ?case by (subst clear_loop.simps) simp
next
  case (snoc x xs)
  then have h: "head_ptr l \<noteq> None" by (simp add: holds_head)
  from holds_popBack[OF snoc.prems] obtain l' where l': "popBack l = Inr l'" "holds l' xs"
    by blast
  from snoc.IH[OF l'(2)] h l'(1) show ?case
    by (subst clear_loop.simps) simp
qed

lemma clear_holds:
  assumes "holds l xs"
  shows "\<exists>l'. clear l = Return l' \<and> holds l' []"
proof -
  from clear_loop_holds[OF assms] obtain l' where l': "clear_loop l = Return l'" "holds l' []"
    by blast
  then have "size_cnt l' = 0" using holds_size by fastforce
  with l' show ?thesis by (simp add: clear_def)
qed

lemma assign_loop_distinct:
  "linked (mem other) p as \<Longrightarrow> holds this zs \<Longrightarrow>
   \<exists>l'. assign_loop this (Distinct other) (case as of [] \<Rightarrow> None | a # _ \<Rightarrow> Some a) = Return l'
         \<and> holds l' (zs @ values_at (mem other) as)"
proof (induction as arbitrary: p this zs)
  case Nil
  then show ?case by (subst assign_loop.simps) simp
next
  case (Cons a as)
  from Cons.prems(1) obtain n where n: "mem other a = Some n"
      "next n = (case as of [] \<Rightarrow> None | c # _ \<Rightarrow> Some c)" "linked (mem other) (Some a) as"
    unfolding linked_Cons by blast
  from holds_pushBack[OF Cons.prems(2), of "data n"] obtain this' where
    t: "pushBack (data n) this = Inr this'" "holds this' (zs @ [data n])" by blast
  from Cons.IH[OF n(3) t(2)] n(1,2) t(1) show ?case
    by (subst assign_loop.simps) (simp add: deref_def)
qed

lemma assign_distinct:
  assumes "holds this xs" and "holds other ys"
  shows "\<exists>l'. assign this (Distinct other) = Return l' \<and> holds l' ys"
proof -
  from clear_holds[OF assms(1)] obtain this1 where c: "clear this = Return this1" "holds this1 []"
    by blast
  from assms(2) obtain as where as: "well_formed other as" "values_at (mem other) as = ys"
    unfolding holds_def by blast
  then have lk: "linked (mem other) None as"
    and hd: "head_ptr other = (case as of [] \<Rightarrow> None | a # _ \<Rightarrow> Some a)"
    by (simp_all add: well_formed_def)
  from assign_loop_distinct[OF lk c(2)] c(1) hd as(2) show ?thesis
    by (simp add: assign_def)
qed

lemma copy_holds:
  "holds other ys \<Longrightarrow> \<exists>l'. LinkedList_copy other = Return l' \<and> holds l' ys"
  unfolding LinkedList_copy_def by (rule assign_distinct[OF holds_default])

lemma assign_self:
  assumes "holds l xs"
  shows "assign l Self = clear l"
proof -
  from clear_holds[OF assms] obtain l1 where c: "clear l = Return l1" "holds l1 []"
    by blast
  then have "head_ptr l1 = None" by (simp add: holds_head)
  with c show ?thesis
    by (simp add: assign_def) (subst assign_loop.simps, simp)
qed

section \<open>Assigning a list to itself\<close>

text \<open>
  Claim C10.  When \<^verbatim>\<open>other\<close> is the list itself, copy assignment of a well-formed list
  returns what \<^verbatim>\<open>clear()\<close> alone returns: the copy loop starts from the head of the list
  that has just been cleared, so it does not run, and the list is left without elements,
  with size 0, whatever it held before.
\<close>

theorem self_assignment_empties:
  assumes "holds l xs"
  shows "\<exists>l'. assign l Self = Return l' \<and> clear l = Return l'
            \<and> holds l' [] \<and> empty_LL l' \<and> size_LL l' = 0"
proof -
  from clear_holds[OF assms] obtain l1 where c: "clear l = Return l1" "holds l1 []"
    by blast
  moreover from c(2) have "empty_LL l1" "size_LL l1 = 0"
    using holds_empty[OF c(2)] holds_size[OF c(2)] by (simp_all add: size_LL_def)
  ultimately show ?thesis
    using assign_self[OF assms] by simp
qed

theorem self_assignment_empties_witness:
  "holds example_list [5, 3, 8, 1]
   \<and> (\<exists>l'. assign example_list Self = Return l' \<and> clear example_list = Return l'
          \<and> holds l' [] \<and> empty_LL l' \<and> size_LL l' = 0)"
  using holds_example_list self_assignment_empties[OF holds_example_list] by blast

section \<open>Equality of two lists\<close>

lemma truncated_list_made:
  "bind_res (set_next (getHeadPtr example_list) None (mem example_list))
     (\<lambda>m. Inr (example_list\<lparr>mem := m\<rparr>)) = Inr truncated_list"
  by (simp add: example_list_def truncated_list_def getHeadPtr_def set_next_def bind_res_def
        fun_eq_iff)

lemma equals_sizes_differ:
  "size_cnt this \<noteq> size_cnt other \<Longrightarrow> equals this other = Return False"
  by (simp add: equals_def)

lemma equals_loop_linked:
  "linked m p as \<Longrightarrow> linked m' p' bs \<Longrightarrow> length as = length bs \<Longrightarrow>
   equals_loop m m' (case as of [] \<Rightarrow> None | a # _ \<Rightarrow> Some a)
     (case bs of [] \<Rightarrow> None | b # _ \<Rightarrow> Some b)
   = Return (values_at m as = values_at m' bs)"
proof (induction as arbitrary: p p' bs)
  case Nil
  then show ?case by (subst equals_loop.simps) simp
next
  case (Cons a as)
  then obtain b bs' where bs: "bs = b # bs'" by (cases bs) auto
  from Cons.prems(1) obtain n where n: "m a = Some n"
      "next n = (case as of [] \<Rightarrow> None | c # _ \<Rightarrow> Some c)" "linked m (Some a) as"
    unfolding linked_Cons by blast
  from Cons.prems(2)[unfolded bs linked_Cons] obtain n' where n': "m' b = Some n'"
      "next n' = (case bs' of [] \<Rightarrow> None | c # _ \<Rightarrow> Some c)" "linked m' (Some b) bs'"
    by blast
  from Cons.prems(3) bs have len: "length as = length bs'" by simp
  from Cons.IH[OF n(3) n'(3) len] n(1,2) n'(1,2) bs show ?case
    by (subst equals_loop.simps) (simp add: deref_def)
qed

lemma equals_holds:
  assumes "holds this xs" and "holds other ys"
  shows "equals this other = Return (xs = ys)"
proof -
  from assms(1) obtain as where as: "well_formed this as" "values_at (mem this) as = xs"
    unfolding holds_def by blast
  from assms(2) obtain bs where bs: "well_formed other bs" "values_at (mem other) bs = ys"
    unfolding holds_def by blast
  show ?thesis
  proof (cases "length as = length bs")
    case True
    have "equals_loop (mem this) (mem other) (head_ptr this) (head_ptr other) = Return (xs = ys)"
      using equals_loop_linked[of "mem this" None as "mem other" None bs] as bs True
      by (simp add: well_formed_def)
    then show ?thesis using as(1) bs(1) True by (simp add: equals_def well_formed_def)
  next
    case False
    then have "xs \<noteq> ys" using as(2) bs(2) length_values_at by metis
    then show ?thesis using as(1) bs(1) False by (simp add: equals_def well_formed_def)
  qed
qed

text \<open>
  Claim C8.  \<^verbatim>\<open>equals\<close> returns \<^verbatim>\<open>false\<close> at once when the two counters differ
  (\<open>equals_sizes_differ\<close>) and compares two well-formed lists element by element
  (\<open>equals_holds\<close>).  The claim also says that with equal counters a chain that ends
  before the other one is reported by an exception, whichever of the two lists it belongs
  to.  The loop tests only \<^verbatim>\<open>otherCur\<close>: on \<open>truncated_list\<close>, whose counter is 4 and whose
  chain has the single node 5, compared with \<open>example_list\<close>, whose chain has four nodes,
  it returns \<^verbatim>\<open>true\<close>; with the two lists exchanged it throws.
\<close>

theorem equals_accepts_short_chain:
  "size_cnt truncated_list = size_cnt example_list
   \<and> equals truncated_list example_list = Return True
   \<and> equals example_list truncated_list
       = Throw (RuntimeError ''Error in equals: otherCur missing a node or wrong item count'')"
  by (simp add: equals_def equals_loop.simps truncated_list_def example_list_def deref_def)

section \<open>The structural checks on a well-formed list\<close>

lemma linked_mid:
  "linked m p (as @ b # bs) \<Longrightarrow>
   \<exists>n. m b = Some n \<and> prev n = (if as = [] then p else Some (last as))
       \<and> next n = (case bs of [] \<Rightarrow> None | c # _ \<Rightarrow> Some c)"
proof (induction as arbitrary: p)
  case Nil
  then obtain n where "m b = Some n" "prev n = p"
      "next n = (case bs of [] \<Rightarrow> None | c # _ \<Rightarrow> Some c)"
    unfolding append_Nil linked_Cons by blast
  then show ?case by simp
next
  case (Cons a as)
  from Cons.prems have "linked m (Some a) (as @ b # bs)"
    unfolding append_Cons linked_Cons by blast
  from Cons.IH[OF this] show ?case by auto
qed

lemma well_formed_next_prev:
  assumes wf: "well_formed l as" and a: "mem l a = Some n" and nx: "next n = Some b"
  shows "\<exists>nb. mem l b = Some nb \<and> prev nb = Some a"
proof -
  have lk: "linked (mem l) None as" using wf by (simp add: well_formed_def)
  have "a \<in> set as" using wf a by (auto simp: well_formed_def)
  then obtain pre post where sp: "as = pre @ a # post" by (meson split_list)
  from linked_mid[OF lk[unfolded sp]] a nx obtain post' where p: "post = b # post'"
    by (cases post) auto
  have "as = (pre @ [a]) @ b # post'" using sp p by simp
  from linked_mid[OF lk[unfolded this]] show ?thesis by auto
qed

lemma well_formed_prev_next:
  assumes wf: "well_formed l as" and a: "mem l a = Some n" and pv: "prev n = Some b"
  shows "\<exists>nb. mem l b = Some nb \<and> next nb = Some a"
proof -
  have lk: "linked (mem l) None as" using wf by (simp add: well_formed_def)
  have "a \<in> set as" using wf a by (auto simp: well_formed_def)
  then obtain pre post where sp: "as = pre @ a # post" by (meson split_list)
  from linked_mid[OF lk[unfolded sp]] a pv have ne: "pre \<noteq> []" and b: "b = last pre"
    by (auto split: if_splits)
  then obtain pre' where p: "pre = pre' @ [b]" by (metis append_butlast_last_id)
  have "as = pre' @ b # (a # post)" using sp p by simp
  from linked_mid[OF lk[unfolded this]] show ?thesis by auto
qed

lemma assertCorrectSize_loop_linked:
  "linked m p as \<Longrightarrow>
   assertCorrectSize_loop m (case as of [] \<Rightarrow> None | a # _ \<Rightarrow> Some a) k
   = Return (k + int (length as))"
proof (induction as arbitrary: p k)
  case Nil
  then show ?case by (subst assertCorrectSize_loop.simps) simp
next
  case (Cons a as)
  from Cons.prems obtain n where n: "m a = Some n"
      "next n = (case as of [] \<Rightarrow> None | c # _ \<Rightarrow> Some c)" "linked m (Some a) as"
    unfolding linked_Cons by blast
  from Cons.IH[OF n(3), of "k + 1"] n(1,2) show ?case
    by (subst assertCorrectSize_loop.simps) (simp add: deref_def)
qed

lemma assertCorrectSize_well_formed:
  "well_formed l as \<Longrightarrow> assertCorrectSize l = Return True"
  using assertCorrectSize_loop_linked[of "mem l" None as 0]
  by (simp add: assertCorrectSize_def well_formed_def)

lemma forward_loop_linked:
  "linked m p as \<Longrightarrow> holds f zs \<Longrightarrow>
   \<exists>f'. forward_loop m (case as of [] \<Rightarrow> None | a # _ \<Rightarrow> Some a) f = Return f'
        \<and> holds f' (zs @ as)"
proof (induction as arbitrary: p f zs)
  case Nil
  then show ?case by (subst forward_loop.simps) simp
next
  case (Cons a as)
  from Cons.prems(1) obtain n where n: "m a = Some n"
      "next n = (case as of [] \<Rightarrow> None | c # _ \<Rightarrow> Some c)" "linked m (Some a) as"
    unfolding linked_Cons by blast
  from holds_pushBack[OF Cons.prems(2), of a] obtain f1 where
    f1: "pushBack a f = Inr f1" "holds f1 (zs @ [a])" by blast
  from Cons.IH[OF n(3) f1(2)] n(1,2) f1(1) show ?case
    by (subst forward_loop.simps) (simp add: deref_def)
qed

lemma reverse_loop_linked:
  "linked m None (as @ bs) \<Longrightarrow> holds r bs \<Longrightarrow>
   \<exists>r'. reverse_loop m (if as = [] then None else Some (last as)) r = Return r'
        \<and> holds r' (as @ bs)"
proof (induction as arbitrary: bs r rule: rev_induct)
  case Nil
  then show ?case by (subst reverse_loop.simps) simp
next
  case (snoc b as)
  have lk: "linked m None (as @ b # bs)" using snoc.prems(1) by simp
  from linked_mid[OF lk] obtain n where n: "m b = Some n"
      "prev n = (if as = [] then None else Some (last as))" by blast
  from holds_pushFront[OF snoc.prems(2), of b] obtain r1 where
    r1: "pushFront b r = Inr r1" "holds r1 (b # bs)" by blast
  from snoc.IH[OF lk r1(2)] n r1(1) show ?case
    by (subst reverse_loop.simps) (simp add: deref_def)
qed

lemma assertPrevLinks_well_formed:
  assumes wf: "well_formed l as"
  shows "assertPrevLinks l = Return True"
proof -
  have lk: "linked (mem l) None as"
    and hd: "head_ptr l = (case as of [] \<Rightarrow> None | a # _ \<Rightarrow> Some a)"
    and tl: "tail_ptr l = (if as = [] then None else Some (last as))"
    using wf by (simp_all add: well_formed_def)
  from forward_loop_linked[OF lk holds_default] obtain f where
    f: "forward_loop (mem l) (head_ptr l) LinkedList_default = Return f" "holds f as"
    unfolding hd by auto
  from reverse_loop_linked[of "mem l" as "[]", OF _ holds_default] lk obtain r where
    r: "reverse_loop (mem l) (tail_ptr l) LinkedList_default = Return r" "holds r as"
    unfolding tl by auto
  show ?thesis
    using f(1) r(1) equals_holds[OF f(2) r(2)] by (simp add: assertPrevLinks_def)
qed

lemma well_formed_ends:
  "well_formed l as \<Longrightarrow>
   (head_ptr l = None \<longleftrightarrow> tail_ptr l = None) \<and> (tail_ptr l = None \<longleftrightarrow> size_cnt l = 0)"
  by (cases as) (auto simp: well_formed_def)

lemma Inr_unique: "f = Inr a \<Longrightarrow> (\<exists>b. f = Inr b \<and> P b) \<Longrightarrow> P a"
  by auto

lemma Return_unique: "f = Return a \<Longrightarrow> (\<exists>b. f = Return b \<and> P b) \<Longrightarrow> P a"
  by auto

lemma reachable_holds: "reachable l \<Longrightarrow> \<exists>xs. holds l xs"
proof (induction rule: reachable.induct)
  case default_ctor
  show ?case using holds_default by blast
next
  case (copy_ctor other l')
  then obtain ys where "holds other ys" by blast
  from Return_unique[OF copy_ctor(2) copy_holds[OF this]] show ?case by blast
next
  case (assigned l other l')
  then obtain xs ys where "holds l xs" "holds other ys" by blast
  from Return_unique[OF assigned(3) assign_distinct[OF this]] show ?case by blast
next
  case (self_assigned l l')
  then obtain xs where xs: "holds l xs" by blast
  from self_assigned(2) have "clear l = Return l'" unfolding assign_self[OF xs] .
  from Return_unique[OF this clear_holds[OF xs]] show ?case by blast
next
  case (pushedFront l v l')
  then obtain xs where "holds l xs" by blast
  from Inr_unique[OF pushedFront(2) holds_pushFront[OF this]] show ?case by blast
next
  case (pushedBack l v l')
  then obtain xs where "holds l xs" by blast
  from Inr_unique[OF pushedBack(2) holds_pushBack[OF this]] show ?case by blast
next
  case (poppedFront l l')
  then obtain xs where xs: "holds l xs" by blast
  show ?case
  proof (cases xs)
    case Nil
    with xs poppedFront(2) holds_popFront_Nil[of l] show ?thesis by auto
  next
    case (Cons y ys)
    from Inr_unique[OF poppedFront(2) holds_popFront[OF xs[unfolded Cons]]] show ?thesis by blast
  qed
next
  case (poppedBack l l')
  then obtain xs where xs: "holds l xs" by blast
  show ?case
  proof (cases "xs = []")
    case True
    with xs poppedBack(2) holds_popBack_Nil[of l] show ?thesis by auto
  next
    case False
    then obtain ys y where "xs = ys @ [y]" by (metis append_butlast_last_id)
    from Inr_unique[OF poppedBack(2) holds_popBack[OF xs[unfolded this]]] show ?thesis by blast
  qed
next
  case (cleared l l')
  then obtain xs where xs: "holds l xs" by blast
  from Return_unique[OF cleared(2) clear_holds[OF xs]] show ?case by blast
qed

section \<open>The invariants after every operation\<close>

text \<open>
  Claim C5.  \<open>reachable\<close> are the lists that the constructors, the copy assignment and
  the push, pop and clear operations of \<^verbatim>\<open>LinkedList.h\<close> produce, starting from a new list.
  Every such list passes \<^verbatim>\<open>assertCorrectSize\<close> (the counter is the number of nodes counted
  from the head) and \<^verbatim>\<open>assertPrevLinks\<close> (the nodes met from the head along \<^verbatim>\<open>next\<close> are
  those met from the tail along \<^verbatim>\<open>prev\<close>, in the opposite order); its head is null
  exactly when its tail is null and exactly when its counter is 0; and whenever a node's
  \<^verbatim>\<open>next\<close> is a node, that node's \<^verbatim>\<open>prev\<close> is the first node, and the same with \<^verbatim>\<open>next\<close>
  and \<^verbatim>\<open>prev\<close> exchanged.  \<^verbatim>\<open>insertOrdered\<close> is declared in \<^verbatim>\<open>LinkedList.h\<close> but defined
  in a file that is not among the sources, so it is not among the operations here.
\<close>

theorem invariants_after_operations:
  assumes "reachable l"
  shows "assertCorrectSize l = Return True
       \<and> assertPrevLinks l = Return True
       \<and> (head_ptr l = None \<longleftrightarrow> tail_ptr l = None)
       \<and> (tail_ptr l = None \<longleftrightarrow> size_cnt l = 0)
       \<and> (\<forall>a n b. mem l a = Some n \<and> next n = Some b
             \<longrightarrow> (\<exists>nb. mem l b = Some nb \<and> prev nb = Some a))
       \<and> (\<forall>a n b. mem l a = Some n \<and> prev n = Some b
             \<longrightarrow> (\<exists>nb. mem l b = Some nb \<and> next nb = Some a))
       \<and> (\<exists>as. well_formed l as)"
proof -
  from reachable_holds[OF assms] obtain as where wf: "well_formed l as"
    unfolding holds_def by blast
  have np: "\<forall>a n b. mem l a = Some n \<and> next n = Some b
             \<longrightarrow> (\<exists>nb. mem l b = Some nb \<and> prev nb = Some a)"
    using well_formed_next_prev[OF wf] by blast
  have pn: "\<forall>a n b. mem l a = Some n \<and> prev n = Some b
             \<longrightarrow> (\<exists>nb. mem l b = Some nb \<and> next nb = Some a)"
    using well_formed_prev_next[OF wf] by blast
  have ex: "\<exists>as. well_formed l as" using wf by blast
  show ?thesis
    using assertCorrectSize_well_formed[OF wf] assertPrevLinks_well_formed[OF wf]
      well_formed_ends[OF wf] np pn ex
    by (intro conjI) simp_all
qed

lemma reachable_example_list: "reachable example_list"
proof -
  have r0: "reachable (LinkedList_default :: int LinkedList)" by (rule default_ctor)
  from holds_pushBack[OF holds_default, of 5] obtain l1 :: "int LinkedList"
    where l1: "pushBack 5 LinkedList_default = Inr l1" "holds l1 [5]" by auto
  from holds_pushBack[OF l1(2), of 3] obtain l2
    where l2: "pushBack 3 l1 = Inr l2" "holds l2 [5, 3]" by auto
  from holds_pushBack[OF l2(2), of 8] obtain l3
    where l3: "pushBack 8 l2 = Inr l3" "holds l3 [5, 3, 8]" by auto
  from holds_pushBack[OF l3(2), of 1] obtain l4
    where l4: "pushBack 1 l3 = Inr l4" by auto
  have "reachable l4"
    by (rule pushedBack[OF pushedBack[OF pushedBack[OF pushedBack[OF r0 l1(1)] l2(1)] l3(1)] l4])
  moreover from example_list_built have "l4 = example_list"
    unfolding bind_res_def l1(1) sum.case l2(1) l3(1) l4 by (simp only: sum.inject)
  ultimately show ?thesis by simp
qed

theorem invariants_after_operations_witness:
  "reachable example_list
   \<and> assertCorrectSize example_list = Return True
   \<and> assertPrevLinks example_list = Return True
   \<and> (head_ptr example_list = None) = (tail_ptr example_list = None)
   \<and> (tail_ptr example_list = None) = (size_cnt example_list = 0)
   \<and> mem example_list 0 = Some \<lparr>next = Some 1, prev = None, data = 5\<rparr>
   \<and> (\<exists>nb. mem example_list 1 = Some nb \<and> prev nb = Some 0)
   \<and> mem example_list 1 = Some \<lparr>next = Some 2, prev = Some 0, data = 3\<rparr>
   \<and> (\<exists>nb. mem example_list 0 = Some nb \<and> next nb = Some 1)
   \<and> (\<exists>as. well_formed example_list as)"
proof -
  note inv = invariants_after_operations[OF reachable_example_list]
  have c0: "mem example_list 0 = Some \<lparr>next = Some 1, prev = None, data = 5\<rparr>"
    and c1: "mem example_list 1 = Some \<lparr>next = Some 2, prev = Some 0, data = 3\<rparr>"
    by (simp_all add: example_list_def)
  from inv have np: "\<forall>a n b. mem example_list a = Some n \<and> next n = Some b
             \<longrightarrow> (\<exists>nb. mem example_list b = Some nb \<and> prev nb = Some a)"
    by (elim conjE)
  from inv have pn: "\<forall>a n b. mem example_list a = Some n \<and> prev n = Some b
             \<longrightarrow> (\<exists>nb. mem example_list b = Some nb \<and> next nb = Some a)"
    by (elim conjE)
  from np c0 have n1: "\<exists>nb. mem example_list 1 = Some nb \<and> prev nb = Some 0"
    by (elim allE[of _ 0] allE[of _ "\<lparr>next = Some 1, prev = None, data = 5\<rparr>"] allE[of _ 1]) simp
  from pn c1 have n0: "\<exists>nb. mem example_list 0 = Some nb \<and> next nb = Some 1"
    by (elim allE[of _ 1] allE[of _ "\<lparr>next = Some 2, prev = Some 0, data = 3\<rparr>"] allE[of _ 0]) simp
  from inv reachable_example_list c0 c1 n1 n0 show ?thesis
    by (intro conjI) simp_all
qed

section \<open>Lists of lists\<close>

lemma holds2_default: "holds2 LinkedList_default []"
  unfolding holds2_def using holds_default by fastforce

lemma pushBack_list_holds:
  assumes "holds ll ls" and "holds l xs"
  shows "\<exists>ll' c. pushBack_list l ll = Return ll' \<and> holds ll' (ls @ [c]) \<and> holds c xs"
proof -
  from copy_holds[OF assms(2)] obtain c where c: "LinkedList_copy l = Return c" "holds c xs"
    by blast
  from holds_pushBack[OF assms(1), of c] obtain ll' where
    "pushBack c ll = Inr ll'" "holds ll' (ls @ [c])" by blast
  with c show ?thesis by (auto simp: pushBack_list_def)
qed

lemma pushBack_list_holds2:
  assumes "holds2 ll xss" and "holds l xs"
  shows "\<exists>ll'. pushBack_list l ll = Return ll' \<and> holds2 ll' (xss @ [xs])"
proof -
  from assms(1) obtain ls where ls: "holds ll ls" "list_all2 holds ls xss"
    unfolding holds2_def by blast
  from pushBack_list_holds[OF ls(1) assms(2)] obtain ll' c where
    c: "pushBack_list l ll = Return ll'" "holds ll' (ls @ [c])" "holds c xs" by blast
  have "list_all2 holds (ls @ [c]) (xss @ [xs])"
    using ls(2) c(3) by (simp add: list_all2_appendI)
  with c(1,2) show ?thesis unfolding holds2_def by blast
qed

section \<open>Splitting a list into halves\<close>

lemma splitHalves_loop_holds:
  "holds leftHalf (xs @ ys) \<Longrightarrow> holds rightHalf zs \<Longrightarrow> length ys = k \<Longrightarrow>
   \<exists>l' r'. splitHalves_loop k leftHalf rightHalf = Inr (l', r')
          \<and> holds l' xs \<and> holds r' (ys @ zs)"
proof (induction k arbitrary: ys zs leftHalf rightHalf)
  case 0
  then show ?case by simp
next
  case (Suc k)
  from Suc.prems(3) have "ys \<noteq> []" by auto
  then obtain ys' y where ys: "ys = ys' @ [y]" by (metis append_butlast_last_id)
  have l: "holds leftHalf ((xs @ ys') @ [y])" using Suc.prems(1) ys by simp
  from holds_pushFront[OF Suc.prems(2), of y] obtain r1 where
    r1: "pushFront y rightHalf = Inr r1" "holds r1 (y # zs)" by blast
  from holds_popBack[OF l] obtain l1 where l1: "popBack leftHalf = Inr l1" "holds l1 (xs @ ys')"
    by blast
  have "length ys' = k" using Suc.prems(3) ys by simp
  from Suc.IH[OF l1(2) r1(2) this] holds_back[OF l] r1(1) l1(1) ys show ?case
    by (simp add: bind_res_def)
qed

lemma splitHalves_holds:
  assumes "holds l xs"
  shows "\<exists>halves left right. splitHalves l = Return halves \<and> holds halves [left, right]
           \<and> holds left (take (length xs - length xs div 2) xs)
           \<and> holds right (drop (length xs - length xs div 2) xs)"
proof -
  let ?k = "length xs div 2"
  let ?ys = "take (length xs - ?k) xs" and ?zs = "drop (length xs - ?k) xs"
  from copy_holds[OF assms] obtain leftHalf where
    c: "LinkedList_copy l = Return leftHalf" "holds leftHalf xs" by blast
  have sz: "size_cnt l = int (length xs)" by (rule holds_size[OF assms])
  have "\<exists>l' r'. (if size_cnt l < 2 then Inr (leftHalf, LinkedList_default)
                  else splitHalves_loop (nat (size_cnt l div 2)) leftHalf LinkedList_default)
                 = Inr (l', r') \<and> holds l' ?ys \<and> holds r' ?zs"
  proof (cases "size_cnt l < 2")
    case True
    then have "?k = 0" using sz by auto
    with True c(2) holds_default show ?thesis by simp
  next
    case False
    have k: "nat (size_cnt l div 2) = ?k" using sz by (simp add: zdiv_int[symmetric] del: zdiv_int)
    have "holds leftHalf (?ys @ ?zs)" using c(2) by simp
    from splitHalves_loop_holds[OF this holds_default, of ?k] False k show ?thesis
      by simp
  qed
  then obtain l' r' where
    lr: "(if size_cnt l < 2 then Inr (leftHalf, LinkedList_default)
          else splitHalves_loop (nat (size_cnt l div 2)) leftHalf LinkedList_default) = Inr (l', r')"
      "holds l' ?ys" "holds r' ?zs" by blast
  from pushBack_list_holds[OF holds_default lr(2)] obtain h1 left where
    h1: "pushBack_list l' LinkedList_default = Return h1" "holds h1 [left]" "holds left ?ys"
    by auto
  from pushBack_list_holds[OF h1(2) lr(3)] obtain h2 right where
    h2: "pushBack_list r' h1 = Return h2" "holds h2 [left, right]" "holds right ?zs"
    by auto
  have "splitHalves l = Return h2"
    using c(1) lr(1) h1(1) h2(1)
    by (cases "size_cnt l < 2") (simp_all add: splitHalves_def Let_def)
  with h2 h1(3) show ?thesis by blast
qed

lemma holds_singleton_list: "holds singleton_list [7]"
  unfolding holds_def
  by (rule exI[of _ "[0]"]) (auto simp: well_formed_def singleton_list_def)

text \<open>
  Claim C4.  On a list that holds \<open>xs\<close>, of length \<open>n\<close>, \<^verbatim>\<open>splitHalves()\<close> returns a list
  of two lists.  The second holds the last \<open>n div 2\<close> elements of \<open>xs\<close> and the first
  holds the elements before them, both in the original order, so the first followed by
  the second is \<open>xs\<close> and the two sizes add up to the size of the list.  For \<open>n < 2\<close> the
  first holds all of \<open>xs\<close> and the second is empty.
\<close>

theorem splitHalves_halves:
  assumes "holds l xs"
  shows "\<exists>halves left right ys zs.
           splitHalves l = Return halves \<and> holds halves [left, right]
           \<and> holds left ys \<and> holds right zs
           \<and> ys @ zs = xs
           \<and> length zs = length xs div 2
           \<and> zs = drop (length xs - length xs div 2) xs
           \<and> size_LL left + size_LL right = size_LL l
           \<and> (length xs < 2 \<longrightarrow> ys = xs \<and> zs = [])"
proof -
  let ?ys = "take (length xs - length xs div 2) xs"
  let ?zs = "drop (length xs - length xs div 2) xs"
  from splitHalves_holds[OF assms] obtain halves left right where
    h: "splitHalves l = Return halves" "holds halves [left, right]"
      "holds left ?ys" "holds right ?zs" by blast
  have len: "length ?zs = length xs div 2" by simp
  have cat: "?ys @ ?zs = xs" by simp
  have "int (length ?ys) + int (length ?zs) = int (length xs)"
    using arg_cong[OF cat, of length] by (simp only: length_append of_nat_add)
  then have sz: "size_LL left + size_LL right = size_LL l"
    unfolding size_LL_def holds_size[OF h(3)] holds_size[OF h(4)] holds_size[OF assms] .
  have small: "length xs < 2 \<longrightarrow> ?ys = xs \<and> ?zs = []" by auto
  from h cat len sz small show ?thesis by blast
qed

theorem splitHalves_halves_witness:
  "holds example_list [5, 3, 8, 1]
   \<and> (\<exists>halves left right.
         splitHalves example_list = Return halves \<and> holds halves [left, right]
         \<and> holds left [5, 3] \<and> holds right [8, 1]
         \<and> size_LL left + size_LL right = size_LL example_list)
   \<and> holds singleton_list [7]
   \<and> length [7 :: int] < 2
   \<and> (\<exists>halves left right.
         splitHalves singleton_list = Return halves \<and> holds halves [left, right]
         \<and> holds left [7] \<and> holds right [])"
proof -
  from splitHalves_halves[OF holds_example_list] obtain halves left right ys zs where
    a: "splitHalves example_list = Return halves" "holds halves [left, right]"
      "holds left ys" "holds right zs" "ys @ zs = [5, 3, 8, 1]"
      "zs = drop (length [5, 3, 8, 1 :: int] - length [5, 3, 8, 1 :: int] div 2) [5, 3, 8, 1]"
      "size_LL left + size_LL right = size_LL example_list"
    by blast
  from a(6) have zs: "zs = [8, 1]" by simp
  with a(5) have ys: "ys = [5, 3]" by simp
  from splitHalves_halves[OF holds_singleton_list] obtain halves' left' right' ys' zs' where
    b: "splitHalves singleton_list = Return halves'" "holds halves' [left', right']"
      "holds left' ys'" "holds right' zs'"
      "length [7 :: int] < 2 \<longrightarrow> ys' = [7] \<and> zs' = []"
    by blast
  have small: "length [7 :: int] < 2" by simp
  with b(5) have "ys' = [7]" "zs' = []" by simp_all
  with a(1-4,7) b(1-4) ys zs holds_example_list holds_singleton_list small show ?thesis
    by blast
qed

section \<open>Sortedness\<close>

lemma isSorted_loop_linked:
  "linked m p (a # as) \<Longrightarrow>
   isSorted_loop le m (Some a) = Return (successively le (values_at m (a # as)))"
proof (induction as arbitrary: a p)
  case Nil
  then obtain n where "m a = Some n" "next n = None"
    unfolding linked_Cons by auto
  then show ?case by (subst isSorted_loop.simps) (simp add: deref_def)
next
  case (Cons b as)
  from Cons.prems obtain n where n: "m a = Some n" "next n = Some b" "linked m (Some a) (b # as)"
    unfolding linked_Cons by auto
  from n(3) obtain nb where nb: "m b = Some nb"
    unfolding linked_Cons by blast
  from Cons.IH[OF n(3)] n(1,2) nb show ?case
    by (subst isSorted_loop.simps) (simp add: deref_def)
qed

lemma isSorted_holds:
  assumes "holds l xs"
  shows "isSorted le l = Return (successively le xs)"
proof -
  from assms obtain as where as: "well_formed l as" "values_at (mem l) as = xs"
    unfolding holds_def by blast
  show ?thesis
  proof (cases as)
    case Nil
    with as show ?thesis by (simp add: isSorted_def well_formed_def)
  next
    case (Cons a as')
    show ?thesis
    proof (cases as')
      case Nil
      with Cons as show ?thesis by (auto simp: isSorted_def well_formed_def)
    next
      case (Cons b bs)
      have lk: "linked (mem l) None (a # as')" using as(1) \<open>as = a # as'\<close>
        by (simp add: well_formed_def)
      have "size_cnt l \<ge> 2" "head_ptr l = Some a"
        using as(1) Cons \<open>as = a # as'\<close> by (simp_all add: well_formed_def)
      with isSorted_loop_linked[OF lk, of le] as(2) \<open>as = a # as'\<close> show ?thesis
        by (simp add: isSorted_def)
    qed
  qed
qed

section \<open>Merging\<close>

lemma merge_list_Nil2 [simp]: "merge_list le xs [] = xs"
  by (cases xs) simp_all

lemma merge_loop_holds:
  "holds left xs \<Longrightarrow> holds right ys \<Longrightarrow> holds merged zs \<Longrightarrow>
   \<exists>m'. merge_loop le left right merged = Return m' \<and> holds m' (zs @ merge_list le xs ys)"
proof (induction le xs ys arbitrary: left right merged zs rule: merge_list.induct)
  case (1 le ys)
  then have el: "empty_LL left" by (simp add: holds_empty)
  show ?case using 1
  proof (induction ys arbitrary: right merged zs)
    case Nil
    then have "empty_LL right" by (simp add: holds_empty)
    with el Nil show ?case by (subst merge_loop.simps) simp
  next
    case (Cons y ys)
    then have ne: "\<not> empty_LL right" by (simp add: holds_empty)
    from holds_pushBack[OF Cons.prems(3), of y] obtain m1 where
      m1: "pushBack y merged = Inr m1" "holds m1 (zs @ [y])" by blast
    from holds_popFront[OF Cons.prems(2)] obtain r1 where
      r1: "popFront right = Inr r1" "holds r1 ys" by blast
    from Cons.IH[OF Cons.prems(1) r1(2) m1(2)] el ne holds_front[OF Cons.prems(2)] m1(1) r1(1)
    show ?case by (subst merge_loop.simps) simp
  qed
next
  case (2 le x xs)
  then have er: "empty_LL right" by (simp add: holds_empty)
  show ?case using 2
  proof (induction xs arbitrary: x left merged zs)
    case Nil
    then have ne: "\<not> empty_LL left" by (simp add: holds_empty)
    from holds_pushBack[OF Nil.prems(3), of x] obtain m1 where
      m1: "pushBack x merged = Inr m1" "holds m1 (zs @ [x])" by blast
    from holds_popFront[OF Nil.prems(1)] obtain l1 where
      l1: "popFront left = Inr l1" "holds l1 []" by blast
    then have "empty_LL l1" by (simp add: holds_empty)
    then have "merge_loop le l1 right m1 = Return m1"
      using er by (subst merge_loop.simps) simp
    with ne er holds_front[OF Nil.prems(1)] m1 l1(1) show ?case
      by (subst merge_loop.simps) simp
  next
    case (Cons x' xs)
    then have ne: "\<not> empty_LL left" by (simp add: holds_empty)
    from holds_pushBack[OF Cons.prems(3), of x] obtain m1 where
      m1: "pushBack x merged = Inr m1" "holds m1 (zs @ [x])" by blast
    from holds_popFront[OF Cons.prems(1)] obtain l1 where
      l1: "popFront left = Inr l1" "holds l1 (x' # xs)" by blast
    from Cons.IH[OF l1(2) Cons.prems(2) m1(2)] ne er holds_front[OF Cons.prems(1)] m1(1) l1(1)
    show ?case by (subst merge_loop.simps) simp
  qed
next
  case (3 le x xs y ys)
  have ne: "\<not> empty_LL left" "\<not> empty_LL right"
    using 3(3,4) by (simp_all add: holds_empty)
  show ?case
  proof (cases "le x y")
    case True
    from holds_pushBack[OF 3(5), of x] obtain m1 where
      m1: "pushBack x merged = Inr m1" "holds m1 (zs @ [x])" by blast
    from holds_popFront[OF 3(3)] obtain l1 where
      l1: "popFront left = Inr l1" "holds l1 xs" by blast
    from 3(1)[OF True l1(2) 3(4) m1(2)] True ne holds_front[OF 3(3)] holds_front[OF 3(4)]
      m1(1) l1(1)
    show ?thesis by (subst merge_loop.simps) simp
  next
    case False
    from holds_pushBack[OF 3(5), of y] obtain m1 where
      m1: "pushBack y merged = Inr m1" "holds m1 (zs @ [y])" by blast
    from holds_popFront[OF 3(4)] obtain r1 where
      r1: "popFront right = Inr r1" "holds r1 ys" by blast
    from 3(2)[OF False 3(3) r1(2) m1(2)] False ne holds_front[OF 3(3)] holds_front[OF 3(4)]
      m1(1) r1(1)
    show ?thesis by (subst merge_loop.simps) simp
  qed
qed

lemma merge_holds:
  assumes "holds this xs" and "holds other ys"
  shows "\<exists>m. merge le this other = Return m \<and> holds m (merge_list le xs ys)"
proof -
  from copy_holds[OF assms(1)] obtain left where
    l: "LinkedList_copy this = Return left" "holds left xs" by blast
  from copy_holds[OF assms(2)] obtain right where
    r: "LinkedList_copy other = Return right" "holds right ys" by blast
  from merge_loop_holds[OF l(2) r(2) holds_default, of le] l(1) r(1) show ?thesis
    by (simp add: merge_def)
qed

lemma mset_merge_list: "mset (merge_list le xs ys) = mset xs + mset ys"
  by (induction le xs ys rule: merge_list.induct) simp_all

lemma length_merge_list: "length (merge_list le xs ys) = length xs + length ys"
  by (induction le xs ys rule: merge_list.induct) simp_all

lemma hd_merge_list:
  "xs \<noteq> [] \<or> ys \<noteq> [] \<Longrightarrow>
   hd (merge_list le xs ys) = (if ys = [] then hd xs else if xs = [] then hd ys
                               else if le (hd xs) (hd ys) then hd xs else hd ys)"
  by (induction le xs ys rule: merge_list.induct) simp_all

lemma merge_list_eq_Nil [simp]: "merge_list le xs ys = [] \<longleftrightarrow> xs = [] \<and> ys = []"
  by (induction le xs ys rule: merge_list.induct) simp_all

lemma successively_merge_list:
  "connex le \<Longrightarrow> successively le xs \<Longrightarrow> successively le ys \<Longrightarrow>
   successively le (merge_list le xs ys)"
proof (induction le xs ys rule: merge_list.induct)
  case (1 le ys)
  then show ?case by simp
next
  case (2 le x xs)
  then show ?case by simp
next
  case (3 le x xs y ys)
  show ?case
  proof (cases "le x y")
    case True
    have s: "successively le xs" using 3(4) by (cases xs) simp_all
    have ih: "successively le (merge_list le xs (y # ys))"
      using 3(1)[OF True 3(3) s 3(5)] .
    have "le x (hd (merge_list le xs (y # ys)))"
      using True 3(4) by (cases xs) (simp_all add: hd_merge_list)
    with ih True show ?thesis by (simp add: successively_Cons)
  next
    case False
    then have yx: "le y x" using 3(3) by (auto simp: connex_def)
    have s: "successively le ys" using 3(5) by (cases ys) simp_all
    have ih: "successively le (merge_list le (x # xs) ys)"
      using 3(2)[OF False 3(3) 3(4) s] .
    have "le y (hd (merge_list le (x # xs) ys))"
      using yx 3(5) by (cases ys) (simp_all add: hd_merge_list)
    with ih False show ?thesis by (simp add: successively_Cons)
  qed
qed

lemma merge_list_stable:
  "transp le \<Longrightarrow> sorted_wrt le xs \<Longrightarrow>
   filter (\<lambda>z. le z v \<and> le v z) (merge_list le xs ys)
   = filter (\<lambda>z. le z v \<and> le v z) xs @ filter (\<lambda>z. le z v \<and> le v z) ys"
proof (induction le xs ys rule: merge_list.induct)
  case (1 le ys)
  then show ?case by simp
next
  case (2 le x xs)
  then show ?case by simp
next
  case (3 le x xs y ys)
  show ?case
  proof (cases "le x y")
    case True
    with 3(1)[OF True 3(3)] 3(4) show ?thesis by simp
  next
    case False
    have ih: "filter (\<lambda>z. le z v \<and> le v z) (merge_list le (x # xs) ys)
      = filter (\<lambda>z. le z v \<and> le v z) (x # xs) @ filter (\<lambda>z. le z v \<and> le v z) ys"
      using 3(2)[OF False 3(3) 3(4)] .
    show ?thesis
    proof (cases "le y v \<and> le v y")
      case eq: True
      have "\<not> (le z v \<and> le v z)" if z: "z \<in> set (x # xs)" for z
      proof
        assume zv: "le z v \<and> le v z"
        have "le x z \<or> z = x" using z 3(4) by auto
        moreover have "le z y" using zv eq 3(3) by (meson transpD)
        ultimately have "le x y" using 3(3) by (meson transpD)
        with False show False by simp
      qed
      then have "filter (\<lambda>z. le z v \<and> le v z) (x # xs) = []"
        by (simp only: filter_empty_conv) blast
      with ih False eq show ?thesis by simp
    next
      case neq: False
      with ih False show ?thesis by auto
    qed
  qed
qed

section \<open>Merging two sorted lists\<close>

lemma holds_list_135: "holds list_135 [1, 3, 5]"
  unfolding holds_def
  by (rule exI[of _ "[0, 1, 2]"]) (auto simp: well_formed_def list_135_def)

lemma holds_list_224: "holds list_224 [2, 2, 4]"
  unfolding holds_def
  by (rule exI[of _ "[0, 1, 2]"]) (auto simp: well_formed_def list_224_def)

lemma connex_int: "connex ((\<le>) :: int \<Rightarrow> int \<Rightarrow> bool)"
  by (auto simp: connex_def)

text \<open>
  Claim C3.  Let two lists hold \<open>xs\<close> and \<open>ys\<close>, let \<^verbatim>\<open>isSorted\<close> return \<^verbatim>\<open>true\<close> on each,
  and let the order of the elements compare any two elements and be transitive.  Then
  \<^verbatim>\<open>merge\<close> returns a list on which \<^verbatim>\<open>isSorted\<close> returns \<^verbatim>\<open>true\<close>, whose size is the sum
  of the two sizes and whose elements are those of \<open>xs\<close> and \<open>ys\<close> together, each as
  often as in both.  It is stable: for every value \<open>v\<close>, the elements of the result that
  compare equal to \<open>v\<close> are those of \<open>xs\<close>, in their order, followed by those of \<open>ys\<close>, in
  their order.
\<close>

theorem merge_sorted_stable:
  assumes "holds a xs" and "holds b ys"
    and "isSorted le a = Return True" and "isSorted le b = Return True"
    and "connex le" and "transp le"
  shows "\<exists>m zs. merge le a b = Return m \<and> holds m zs
           \<and> isSorted le m = Return True
           \<and> size_LL m = size_LL a + size_LL b
           \<and> mset zs = mset xs + mset ys
           \<and> (\<forall>v. filter (\<lambda>z. le z v \<and> le v z) zs
                  = filter (\<lambda>z. le z v \<and> le v z) xs @ filter (\<lambda>z. le z v \<and> le v z) ys)"
proof -
  let ?zs = "merge_list le xs ys"
  from merge_holds[OF assms(1,2), of le] obtain m where
    m: "merge le a b = Return m" "holds m ?zs" by blast
  have sx: "successively le xs" and sy: "successively le ys"
    using assms(3,4) isSorted_holds[OF assms(1), of le] isSorted_holds[OF assms(2), of le]
    by simp_all
  have "successively le ?zs"
    by (rule successively_merge_list[OF assms(5) sx sy])
  then have srt: "isSorted le m = Return True"
    using isSorted_holds[OF m(2), of le] by simp
  have "int (length ?zs) = int (length xs) + int (length ys)"
    by (simp add: length_merge_list)
  then have sz: "size_LL m = size_LL a + size_LL b"
    unfolding size_LL_def holds_size[OF m(2)] holds_size[OF assms(1)] holds_size[OF assms(2)] .
  have ms: "mset ?zs = mset xs + mset ys" by (rule mset_merge_list)
  have "sorted_wrt le xs"
    using sx successively_conv_sorted_wrt[OF assms(6)] by blast
  then have st: "\<forall>v. filter (\<lambda>z. le z v \<and> le v z) ?zs
                  = filter (\<lambda>z. le z v \<and> le v z) xs @ filter (\<lambda>z. le z v \<and> le v z) ys"
    using merge_list_stable[OF assms(6)] by blast
  from m srt sz ms st show ?thesis by blast
qed

theorem merge_sorted_stable_witness:
  "holds list_135 [1, 3, 5] \<and> holds list_224 [2, 2, 4]
   \<and> isSorted (\<le>) list_135 = Return True \<and> isSorted (\<le>) list_224 = Return True
   \<and> connex ((\<le>) :: int \<Rightarrow> int \<Rightarrow> bool) \<and> transp ((\<le>) :: int \<Rightarrow> int \<Rightarrow> bool)
   \<and> (\<exists>m. merge (\<le>) list_135 list_224 = Return m \<and> holds m [1, 2, 2, 3, 4, 5]
          \<and> isSorted (\<le>) m = Return True
          \<and> size_LL m = size_LL list_135 + size_LL list_224
          \<and> filter (\<lambda>z. z \<le> 2 \<and> 2 \<le> z) [1, 2, 2, 3, 4, 5 :: int]
              = filter (\<lambda>z. z \<le> 2 \<and> 2 \<le> z) [1, 3, 5] @ filter (\<lambda>z. z \<le> 2 \<and> 2 \<le> z) [2, 2, 4])"
proof -
  have sa: "isSorted (\<le>) list_135 = Return True"
    using isSorted_holds[OF holds_list_135, of "(\<le>)"] by simp
  have sb: "isSorted (\<le>) list_224 = Return True"
    using isSorted_holds[OF holds_list_224, of "(\<le>)"] by simp
  have tr: "transp ((\<le>) :: int \<Rightarrow> int \<Rightarrow> bool)" by (rule transpI) simp
  from merge_sorted_stable[OF holds_list_135 holds_list_224 sa sb connex_int tr]
  obtain m zs where
    m: "merge (\<le>) list_135 list_224 = Return m" "holds m zs"
      "isSorted (\<le>) m = Return True" "size_LL m = size_LL list_135 + size_LL list_224"
      "\<forall>v. filter (\<lambda>z. z \<le> v \<and> v \<le> z) zs
           = filter (\<lambda>z. z \<le> v \<and> v \<le> z) [1, 3, 5] @ filter (\<lambda>z. z \<le> v \<and> v \<le> z) [2, 2, 4]"
    by blast
  from merge_holds[OF holds_list_135 holds_list_224, of "(\<le>)"] m(1)
  have "holds m (merge_list (\<le>) [1, 3, 5] [2, 2, 4])" by auto
  then have h: "holds m [1, 2, 2, 3, 4, 5]" by simp
  with m(2) have zs: "zs = [1, 2, 2, 3, 4, 5]" by (rule holds_unique)
  from m(5) have "filter (\<lambda>z. z \<le> 2 \<and> 2 \<le> z) zs
           = filter (\<lambda>z. z \<le> 2 \<and> 2 \<le> z) [1, 3, 5] @ filter (\<lambda>z. z \<le> 2 \<and> 2 \<le> z) [2, 2, 4]"
    by (rule spec)
  with zs m(1,3,4) h holds_list_135 holds_list_224 sa sb connex_int tr show ?thesis
    by blast
qed

section \<open>Exploding a list into singletons\<close>

lemma explode_loop_holds2:
  "holds w xs \<Longrightarrow> holds2 q yss \<Longrightarrow>
   \<exists>q'. explode_loop w q = Return q' \<and> holds2 q' (yss @ map (\<lambda>x. [x]) xs)"
proof (induction xs arbitrary: w q yss)
  case Nil
  then have "empty_LL w" by (simp add: holds_empty)
  with Nil show ?case by (subst explode_loop.simps) simp
next
  case (Cons x xs)
  then have ne: "\<not> empty_LL w" by (simp add: holds_empty)
  from holds_pushBack[OF holds_default, of x] obtain s where
    s: "pushBack x LinkedList_default = Inr s" "holds s [x]" by auto
  from holds_popFront[OF Cons.prems(1)] obtain w1 where
    w1: "popFront w = Inr w1" "holds w1 xs" by blast
  from pushBack_list_holds2[OF Cons.prems(2) s(2)] obtain q1 where
    q1: "pushBack_list s q = Return q1" "holds2 q1 (yss @ [[x]])" by blast
  from Cons.IH[OF w1(2) q1(2)] ne holds_front[OF Cons.prems(1)] s(1) w1(1) q1(1)
  show ?case by (subst explode_loop.simps) simp
qed

lemma explode_holds2:
  assumes "holds l xs"
  shows "\<exists>q. explode l = Return q \<and> holds2 q (map (\<lambda>x. [x]) xs)"
proof -
  from copy_holds[OF assms] obtain w where w: "LinkedList_copy l = Return w" "holds w xs"
    by blast
  from explode_loop_holds2[OF w(2) holds2_default] w(1) show ?thesis
    by (simp add: explode_def)
qed

section \<open>References into a list of two lists\<close>

lemma linked_data_upd:
  "linked m p as \<Longrightarrow> m a = Some n \<Longrightarrow> linked (m(a \<mapsto> n\<lparr>data := v\<rparr>)) p as"
proof (induction as arbitrary: p)
  case Nil
  then show ?case by simp
next
  case (Cons b bs)
  from Cons.prems(1) obtain nb where nb: "m b = Some nb" "prev nb = p"
      "next nb = (case bs of [] \<Rightarrow> None | c # _ \<Rightarrow> Some c)" "b \<notin> set bs" "linked m (Some b) bs"
    unfolding linked_Cons by blast
  have ih: "linked (m(a \<mapsto> n\<lparr>data := v\<rparr>)) (Some b) bs"
    by (rule Cons.IH[OF nb(5) Cons.prems(2)])
  show ?case
    unfolding linked_Cons using nb(1-4) ih Cons.prems(2) by (cases "a = b") simp_all
qed

lemma write_data_well_formed:
  assumes wf: "well_formed l as" and a: "a \<in> set as"
  shows "\<exists>l'. write_data a v l = Inr l' \<and> well_formed l' as
           \<and> data (the (mem l' a)) = v
           \<and> (\<forall>b. b \<noteq> a \<longrightarrow> mem l' b = mem l b)"
proof -
  from well_formed_cell[OF wf a] obtain n where n: "mem l a = Some n" by blast
  have lk: "linked ((mem l)(a \<mapsto> n\<lparr>data := v\<rparr>)) None as"
    using wf n by (intro linked_data_upd) (simp_all add: well_formed_def)
  have dm: "dom ((mem l)(a \<mapsto> n\<lparr>data := v\<rparr>)) = set as"
    using wf a by (auto simp: well_formed_def)
  have "write_data a v l = Inr (l\<lparr>mem := (mem l)(a \<mapsto> n\<lparr>data := v\<rparr>)\<rparr>)"
    using n by (simp add: write_data_def deref_def bind_res_def)
  moreover have "well_formed (l\<lparr>mem := (mem l)(a \<mapsto> n\<lparr>data := v\<rparr>)\<rparr>) as"
    using wf lk dm by (simp add: well_formed_def)
  ultimately show ?thesis by simp
qed

lemma holds_two:
  assumes "holds l [x, y]"
  shows "\<exists>p q. well_formed l [p, q] \<and> p \<noteq> q \<and> front_ref l = Inr p \<and> back_ref l = Inr q
           \<and> read_data p l = Inr x \<and> read_data q l = Inr y"
proof -
  from assms obtain as where as: "well_formed l as" "values_at (mem l) as = [x, y]"
    unfolding holds_def by blast
  then obtain p q where pq: "as = [p, q]"
    by (cases as; cases "tl as"; cases "tl (tl as)") auto
  have np: "\<exists>n. mem l p = Some n" and nq: "\<exists>n. mem l q = Some n"
    using well_formed_cell[OF as(1)] pq by simp_all
  have "p \<noteq> q" using as(1) pq by (auto simp: well_formed_def split: option.splits)
  moreover have "front_ref l = Inr p" "back_ref l = Inr q"
    using as(1) pq by (simp_all add: well_formed_def front_ref_def back_ref_def)
  moreover have "read_data p l = Inr x" "read_data q l = Inr y"
    using as(2) pq np nq by (auto simp: read_data_def deref_def bind_res_def)
  ultimately show ?thesis using as(1) pq by blast
qed

lemma read_data_well_formed:
  "well_formed l as \<Longrightarrow> a \<in> set as \<Longrightarrow> read_data a l = Inr (data (the (mem l a)))"
  using well_formed_cell[of l as a] by (auto simp: read_data_def deref_def bind_res_def)

section \<open>The recursive merge sort\<close>

lemma successively_short: "length xs < 2 \<Longrightarrow> successively le xs"
  by (cases xs; cases "tl xs") auto

lemma mergeSortRecursive_holds:
  "holds l xs \<Longrightarrow>
   \<exists>l' ys. mergeSortRecursive le l = Return l' \<and> holds l' ys \<and> mset ys = mset xs
          \<and> (connex le \<longrightarrow> successively le ys)"
proof (induction "length xs" arbitrary: l xs rule: less_induct)
  case less
  have sz: "size_cnt l = int (length xs)" by (rule holds_size[OF less.prems])
  show ?case
  proof (cases "length xs < 2")
    case True
    from copy_holds[OF less.prems] obtain l' where
      "LinkedList_copy l = Return l'" "holds l' xs" by blast
    with True sz successively_short[OF True, of le] show ?thesis
      by (subst mergeSortRecursive.simps) auto
  next
    case False
    let ?ys0 = "take (length xs - length xs div 2) xs"
    let ?zs0 = "drop (length xs - length xs div 2) xs"
    have ly: "length ?ys0 < length xs" and lz: "length ?zs0 < length xs"
      using False by simp_all
    from splitHalves_holds[OF less.prems] obtain halves left right where
      h: "splitHalves l = Return halves" "holds halves [left, right]"
        "holds left ?ys0" "holds right ?zs0" by blast
    from holds_two[OF h(2)] obtain p q where
      pq: "well_formed halves [p, q]" "p \<noteq> q" "front_ref halves = Inr p"
        "back_ref halves = Inr q" "read_data p halves = Inr left"
        "read_data q halves = Inr right" by blast
    from less.hyps[OF ly h(3)] obtain sl ys1 where
      sl: "mergeSortRecursive le left = Return sl" "holds sl ys1" "mset ys1 = mset ?ys0"
        "connex le \<longrightarrow> successively le ys1" by blast
    from assign_distinct[OF h(3) sl(2)] obtain left' where
      l': "assign left (Distinct sl) = Return left'" "holds left' ys1" by blast
    from write_data_well_formed[OF pq(1), of p left'] obtain halves1 where
      w1: "write_data p left' halves = Inr halves1" "well_formed halves1 [p, q]"
        "data (the (mem halves1 p)) = left'" "\<forall>b. b \<noteq> p \<longrightarrow> mem halves1 b = mem halves b"
      by auto
    have rq: "read_data q halves1 = Inr right"
      using read_data_well_formed[OF w1(2), of q] read_data_well_formed[OF pq(1), of q]
        pq(2,6) w1(4) by simp
    from less.hyps[OF lz h(4)] obtain sr zs1 where
      sr: "mergeSortRecursive le right = Return sr" "holds sr zs1" "mset zs1 = mset ?zs0"
        "connex le \<longrightarrow> successively le zs1" by blast
    from assign_distinct[OF h(4) sr(2)] obtain right' where
      r': "assign right (Distinct sr) = Return right'" "holds right' zs1" by blast
    from write_data_well_formed[OF w1(2), of q right'] obtain halves2 where
      w2: "write_data q right' halves1 = Inr halves2" "well_formed halves2 [p, q]"
        "data (the (mem halves2 q)) = right'" "\<forall>b. b \<noteq> q \<longrightarrow> mem halves2 b = mem halves1 b"
      by auto
    have rp2: "read_data p halves2 = Inr left'"
      using read_data_well_formed[OF w2(2), of p] pq(2) w2(4) w1(3) by simp
    have rq2: "read_data q halves2 = Inr right'"
      using read_data_well_formed[OF w2(2), of q] w2(3) by simp
    from merge_holds[OF l'(2) r'(2), of le] obtain m where
      m: "merge le left' right' = Return m" "holds m (merge_list le ys1 zs1)" by blast
    have "mset ?ys0 + mset ?zs0 = mset (?ys0 @ ?zs0)" by (simp only: mset_append)
    then have ms: "mset (merge_list le ys1 zs1) = mset xs"
      using sl(3) sr(3) by (simp add: mset_merge_list)
    have srt: "connex le \<longrightarrow> successively le (merge_list le ys1 zs1)"
      using sl(4) sr(4) successively_merge_list[of le ys1 zs1] by blast
    have "mergeSortRecursive le l = Return m"
      using False sz h(1) pq(3-6) sl(1) l'(1) w1(1) rq sr(1) r'(1) w2(1) rp2 rq2 m(1)
      by (subst mergeSortRecursive.simps) simp
    with m(2) ms srt show ?thesis by blast
  qed
qed

section \<open>The iterative merge sort\<close>

lemma holds2_size: "holds2 q xss \<Longrightarrow> size_LL q = int (length xss)"
  unfolding holds2_def size_LL_def using holds_size list_all2_lengthD by fastforce

lemma mergeSortIterative_step_holds2:
  assumes "holds2 q (a # b # rest)"
  shows "\<exists>q'. mergeSortIterative_step le q = Return q'
           \<and> holds2 q' (rest @ [merge_list le a b])"
proof -
  from assms obtain ls where ls: "holds q ls" "list_all2 holds ls (a # b # rest)"
    unfolding holds2_def by blast
  then obtain la lb lrest where c: "ls = la # lb # lrest" "holds la a" "holds lb b"
      "list_all2 holds lrest rest"
    by (auto simp: list_all2_Cons2)
  have f1: "front q = Inr la" using holds_front ls(1) c(1) by fastforce
  from copy_holds[OF c(2)] obtain left where
    left: "LinkedList_copy la = Return left" "holds left a" by blast
  from holds_popFront[OF ls(1)[unfolded c(1)]] obtain q1 where
    q1: "popFront q = Inr q1" "holds q1 (lb # lrest)" by blast
  have f2: "front q1 = Inr lb" by (rule holds_front[OF q1(2)])
  from copy_holds[OF c(3)] obtain right where
    right: "LinkedList_copy lb = Return right" "holds right b" by blast
  from holds_popFront[OF q1(2)] obtain q2 where
    q2: "popFront q1 = Inr q2" "holds q2 lrest" by blast
  from merge_holds[OF left(2) right(2), of le] obtain merged where
    m: "merge le left right = Return merged" "holds merged (merge_list le a b)" by blast
  have "holds2 q2 rest" unfolding holds2_def using q2(2) c(4) by blast
  from pushBack_list_holds2[OF this m(2)] obtain q' where
    q': "pushBack_list merged q2 = Return q'" "holds2 q' (rest @ [merge_list le a b])" by blast
  have "mergeSortIterative_step le q = Return q'"
    using f1 left(1) q1(1) f2 right(1) q2(1) m(1) q'(1)
    by (simp add: mergeSortIterative_step_def)
  with q'(2) show ?thesis by blast
qed

lemma mergeSortIterative_loop_holds2:
  "holds2 q xss \<Longrightarrow> xss \<noteq> [] \<Longrightarrow>
   \<exists>q' ys. mergeSortIterative_loop le q = Return q' \<and> holds2 q' [ys]
          \<and> mset ys = mset (concat xss)
          \<and> (connex le \<and> (\<forall>xs \<in> set xss. successively le xs) \<longrightarrow> successively le ys)"
proof (induction "length xss" arbitrary: q xss rule: less_induct)
  case less
  have sz: "size_LL q = int (length xss)" by (rule holds2_size[OF less.prems(1)])
  from less.prems(2) obtain a rest0 where x0: "xss = a # rest0" by (cases xss) auto
  show ?case
  proof (cases rest0)
    case Nil
    with x0 sz less.prems(1) show ?thesis
      by (subst mergeSortIterative_loop.simps) auto
  next
    case (Cons b rest)
    with x0 have x: "xss = a # b # rest" by simp
    from mergeSortIterative_step_holds2[OF less.prems(1)[unfolded x], of le] obtain q1 where
      q1: "mergeSortIterative_step le q = Return q1"
        "holds2 q1 (rest @ [merge_list le a b])" by blast
    have len: "length (rest @ [merge_list le a b]) < length xss" using x by simp
    from less.hyps[OF len q1(2)] obtain q' ys where
      r: "mergeSortIterative_loop le q1 = Return q'" "holds2 q' [ys]"
        "mset ys = mset (concat (rest @ [merge_list le a b]))"
        "connex le \<and> (\<forall>xs \<in> set (rest @ [merge_list le a b]). successively le xs)
           \<longrightarrow> successively le ys"
      by blast
    have ms: "mset ys = mset (concat xss)"
      using r(3) x by (simp add: mset_merge_list)
    have srt: "connex le \<and> (\<forall>xs \<in> set xss. successively le xs) \<longrightarrow> successively le ys"
      using r(4) x successively_merge_list[of le a b] by auto
    have "mergeSortIterative_loop le q = Return q'"
      using sz x q1(1) r(1) by (subst mergeSortIterative_loop.simps) simp
    with r(2) ms srt show ?thesis by blast
  qed
qed

lemma mergeSortIterative_holds:
  assumes "holds l xs"
  shows "\<exists>l' ys. mergeSortIterative le l = Return l' \<and> holds l' ys \<and> mset ys = mset xs
          \<and> (connex le \<longrightarrow> successively le ys)"
proof (cases "length xs < 2")
  case True
  have sz: "size_cnt l = int (length xs)" by (rule holds_size[OF assms])
  from copy_holds[OF assms] obtain l' where
    "LinkedList_copy l = Return l'" "holds l' xs" by blast
  with True sz successively_short[OF True, of le] show ?thesis
    by (auto simp: mergeSortIterative_def)
next
  case False
  have sz: "size_cnt l = int (length xs)" by (rule holds_size[OF assms])
  from explode_holds2[OF assms] obtain q where
    q: "explode l = Return q" "holds2 q (map (\<lambda>x. [x]) xs)" by blast
  have ne: "map (\<lambda>x. [x]) xs \<noteq> []" using False by auto
  from mergeSortIterative_loop_holds2[OF q(2) ne, of le] obtain q' ys where
    r: "mergeSortIterative_loop le q = Return q'" "holds2 q' [ys]"
      "mset ys = mset (concat (map (\<lambda>x. [x]) xs))"
      "connex le \<and> (\<forall>zs \<in> set (map (\<lambda>x. [x]) xs). successively le zs) \<longrightarrow> successively le ys"
    by blast
  from r(2) obtain l0 where l0: "holds q' [l0]" "holds l0 ys"
    unfolding holds2_def by (auto simp: list_all2_Cons2)
  have f: "front q' = Inr l0" by (rule holds_front[OF l0(1)])
  from copy_holds[OF l0(2)] obtain l' where
    l': "LinkedList_copy l0 = Return l'" "holds l' ys" by blast
  have "concat (map (\<lambda>x. [x]) xs) = xs" by (induction xs) simp_all
  with r(3) have ms: "mset ys = mset xs" by simp
  have srt: "connex le \<longrightarrow> successively le ys" using r(4) by auto
  have "mergeSortIterative le l = Return l'"
    using False sz q(1) r(1) f l'(1) by (simp add: mergeSortIterative_def)
  with l'(2) ms srt show ?thesis by blast
qed

section \<open>Sorted sequences with the same elements\<close>

lemma sorted_wrt_mset_unique:
  "antisymp le \<Longrightarrow> sorted_wrt le xs \<Longrightarrow> sorted_wrt le ys \<Longrightarrow> mset xs = mset ys \<Longrightarrow> xs = ys"
proof (induction xs arbitrary: ys)
  case Nil
  then show ?case by simp
next
  case (Cons x xs)
  then obtain y ys' where ys: "ys = y # ys'" by (cases ys) auto
  have xy: "x = y"
  proof (rule ccontr)
    assume ne: "x \<noteq> y"
    have "x \<in> set ys" "y \<in> set (x # xs)"
      using Cons.prems(4) ys by (metis list.set_intros(1) set_mset_mset)+
    with ne ys have "x \<in> set ys'" "y \<in> set xs" by auto
    with Cons.prems(2,3) ys have "le y x" "le x y" by auto
    with Cons.prems(1) ne show False by (meson antisympD)
  qed
  with Cons.prems ys have "xs = ys'" by (intro Cons.IH) auto
  with xy ys show ?case by simp
qed

section \<open>More example lists and the order of the integers\<close>

lemma holds_list_531: "holds list_531 [5, 3, 1]"
  unfolding holds_def
  by (rule exI[of _ "[0, 1, 2]"]) (auto simp: well_formed_def list_531_def)

lemma holds2_example_queue: "holds2 example_queue [[7], [7]]"
proof -
  have "holds example_queue [singleton_list, singleton_list]"
    unfolding holds_def
    by (rule exI[of _ "[0, 1]"]) (auto simp: well_formed_def example_queue_def)
  then show ?thesis
    unfolding holds2_def using holds_singleton_list by fastforce
qed

lemma transp_int: "transp ((\<le>) :: int \<Rightarrow> int \<Rightarrow> bool)"
  by (rule transpI) simp

lemma antisymp_int: "antisymp ((\<le>) :: int \<Rightarrow> int \<Rightarrow> bool)"
  by (rule antisympI) simp

section \<open>The elements met from the head\<close>

lemma elements_loop_linked:
  "linked m p as \<Longrightarrow>
   elements_loop m (case as of [] \<Rightarrow> None | a # _ \<Rightarrow> Some a) seen
   = Return (seen @ values_at m as)"
proof (induction as arbitrary: p seen)
  case Nil
  then show ?case by (subst elements_loop.simps) simp
next
  case (Cons a as)
  from Cons.prems obtain n where n: "m a = Some n"
      "next n = (case as of [] \<Rightarrow> None | c # _ \<Rightarrow> Some c)" "linked m (Some a) as"
    unfolding linked_Cons by blast
  from Cons.IH[OF n(3), of "seen @ [data n]"] n(1,2) show ?case
    by (subst elements_loop.simps) (simp add: deref_def)
qed

lemma holds_elements: "holds l xs \<Longrightarrow> elements l = Return xs"
proof -
  assume "holds l xs"
  then obtain as where as: "well_formed l as" "values_at (mem l) as = xs"
    unfolding holds_def by blast
  with elements_loop_linked[of "mem l" None as "[]"] show ?thesis
    by (simp add: elements_def well_formed_def)
qed

section \<open>What merge sort returns\<close>

text \<open>
  Claim C1.  On a list that holds \<open>xs\<close>, with an order that compares any two elements,
  \<^verbatim>\<open>mergeSort()\<close> returns a list on which \<^verbatim>\<open>isSorted()\<close> returns \<^verbatim>\<open>true\<close>, whose size is
  the size of the list, and which holds the elements of \<open>xs\<close>, each as often as \<open>xs\<close>
  does.
\<close>

theorem mergeSort_sorts:
  assumes "holds l xs" and "connex le"
  shows "\<exists>l' ys. mergeSort le l = Return l' \<and> holds l' ys
           \<and> isSorted le l' = Return True
           \<and> size_LL l' = size_LL l
           \<and> mset ys = mset xs"
proof -
  from mergeSortRecursive_holds[OF assms(1), of le] assms(2) obtain l' ys where
    r: "mergeSortRecursive le l = Return l'" "holds l' ys" "mset ys = mset xs"
      "successively le ys" by blast
  have srt: "isSorted le l' = Return True"
    using isSorted_holds[OF r(2), of le] r(4) by simp
  have "length ys = length xs" using r(3) by (rule mset_eq_length)
  then have sz: "size_LL l' = size_LL l"
    unfolding size_LL_def holds_size[OF r(2)] holds_size[OF assms(1)] by simp
  from r(1,2,3) srt sz show ?thesis unfolding mergeSort_def by blast
qed

theorem mergeSort_sorts_witness:
  "holds example_list [5, 3, 8, 1] \<and> connex ((\<le>) :: int \<Rightarrow> int \<Rightarrow> bool)
   \<and> (\<exists>l'. mergeSort (\<le>) example_list = Return l' \<and> holds l' [1, 3, 5, 8]
          \<and> isSorted (\<le>) l' = Return True
          \<and> size_LL l' = size_LL example_list)"
proof -
  from mergeSort_sorts[OF holds_example_list connex_int] obtain l' ys where
    r: "mergeSort (\<le>) example_list = Return l'" "holds l' ys"
      "isSorted (\<le>) l' = Return True" "size_LL l' = size_LL example_list"
      "mset ys = mset [5, 3, 8, 1]" by blast
  have "successively (\<le>) ys"
    using isSorted_holds[OF r(2), of "(\<le>)"] r(3) by simp
  then have s: "sorted_wrt (\<le>) ys"
    using successively_conv_sorted_wrt[OF transp_int] by blast
  have "mset ys = mset [1, 3, 5, 8 :: int]" using r(5) by simp
  from sorted_wrt_mset_unique[OF antisymp_int s _ this] have "ys = [1, 3, 5, 8]" by simp
  with r(1-4) holds_example_list connex_int show ?thesis by blast
qed

section \<open>The two merge sorts on the same list\<close>

lemma holds_tie_list: "holds tie_list [(1, 1), (1, 2), (1, 3)]"
  unfolding holds_def
  by (rule exI[of _ "[0, 1, 2]"]) (auto simp: well_formed_def tie_list_def)

lemma connex_le_fst: "connex le_fst"
  by (auto simp: connex_def le_fst_def)

lemma transp_le_fst: "transp le_fst"
  by (rule transpI) (simp add: le_fst_def)

lemma variants_on_tie_list:
  "bindM (mergeSortRecursive le_fst tie_list) elements = Return [(1, 1), (1, 2), (1, 3)]
   \<and> bindM (mergeSortIterative le_fst tie_list) elements = Return [(1, 3), (1, 1), (1, 2)]"
  by code_simp

text \<open>
  Claim C2, as stated, fails.  The claim says that \<^verbatim>\<open>mergeSortRecursive\<close> and
  \<^verbatim>\<open>mergeSortIterative\<close> return identical output sequences for every input list.  On the
  well-formed list of the three pairs \<open>(1,1)\<close>, \<open>(1,2)\<close>, \<open>(1,3)\<close>, compared by their
  first component (a comparison that compares any two pairs and is transitive), the
  recursive sort returns the pairs in their order, while the iterative sort returns
  \<open>(1,3)\<close> first: its queue holds the third singleton in front of the merge of the first
  two, so the last merge takes the third pair as the left argument, and ties go to the
  left.
\<close>

theorem mergeSort_variants_differ_on_ties:
  "holds tie_list [(1, 1), (1, 2), (1, 3)] \<and> connex le_fst \<and> transp le_fst
   \<and> bindM (mergeSortRecursive le_fst tie_list) elements = Return [(1, 1), (1, 2), (1, 3)]
   \<and> bindM (mergeSortIterative le_fst tie_list) elements = Return [(1, 3), (1, 1), (1, 2)]
   \<and> bindM (mergeSortRecursive le_fst tie_list) elements
       \<noteq> bindM (mergeSortIterative le_fst tie_list) elements"
proof -
  note v = variants_on_tie_list
  have "bindM (mergeSortRecursive le_fst tie_list) elements
       \<noteq> bindM (mergeSortIterative le_fst tie_list) elements"
    unfolding conjunct1[OF v] conjunct2[OF v] by simp
  with holds_tie_list connex_le_fst transp_le_fst v show ?thesis
    by (intro conjI) simp_all
qed

text \<open>
  Claim C2, amended.  Let the order compare any two elements and be transitive.  On
  every list that holds a sequence, \<^verbatim>\<open>mergeSortRecursive\<close> and \<^verbatim>\<open>mergeSortIterative\<close> both
  return; on both results \<^verbatim>\<open>isSorted\<close> returns \<^verbatim>\<open>true\<close>, and the two results hold the
  same elements, each as often in the one as in the other.  When the order is also
  antisymmetric, so that elements that compare equal are equal, the two output
  sequences are identical.  Elements that tie without being equal can come out in a
  different order.
\<close>

theorem mergeSort_variants_agree:
  assumes "holds l xs" and "connex le" and "transp le"
  shows "\<exists>r1 r2 ys zs.
           mergeSortRecursive le l = Return r1 \<and> mergeSortIterative le l = Return r2
           \<and> holds r1 ys \<and> holds r2 zs
           \<and> elements r1 = Return ys \<and> elements r2 = Return zs
           \<and> isSorted le r1 = Return True \<and> isSorted le r2 = Return True
           \<and> mset ys = mset zs
           \<and> (antisymp le \<longrightarrow> ys = zs)"
proof -
  from mergeSortRecursive_holds[OF assms(1), of le] assms(2) obtain r1 ys where
    a: "mergeSortRecursive le l = Return r1" "holds r1 ys" "mset ys = mset xs"
      "successively le ys" by blast
  from mergeSortIterative_holds[OF assms(1), of le] assms(2) obtain r2 zs where
    b: "mergeSortIterative le l = Return r2" "holds r2 zs" "mset zs = mset xs"
      "successively le zs" by blast
  have e: "elements r1 = Return ys" "elements r2 = Return zs"
    using holds_elements[OF a(2)] holds_elements[OF b(2)] by simp_all
  have s: "isSorted le r1 = Return True" "isSorted le r2 = Return True"
    using isSorted_holds[OF a(2), of le] isSorted_holds[OF b(2), of le] a(4) b(4) by simp_all
  have m: "mset ys = mset zs" using a(3) b(3) by simp
  have srt: "sorted_wrt le ys" "sorted_wrt le zs"
    using a(4) b(4) successively_conv_sorted_wrt[OF assms(3)] by blast+
  have u: "antisymp le \<longrightarrow> ys = zs"
    using sorted_wrt_mset_unique[OF _ srt m] by blast
  from a(1,2) b(1,2) e s m u show ?thesis by blast
qed

theorem mergeSort_variants_agree_witness:
  "connex ((\<le>) :: int \<Rightarrow> int \<Rightarrow> bool) \<and> transp ((\<le>) :: int \<Rightarrow> int \<Rightarrow> bool)
   \<and> antisymp ((\<le>) :: int \<Rightarrow> int \<Rightarrow> bool)
   \<and> holds (LinkedList_default :: int LinkedList) []
   \<and> (\<exists>r1 r2 ys. mergeSortRecursive (\<le>) (LinkedList_default :: int LinkedList) = Return r1
         \<and> mergeSortIterative (\<le>) LinkedList_default = Return r2
         \<and> elements r1 = Return ys \<and> elements r2 = Return ys)
   \<and> holds singleton_list [7]
   \<and> (\<exists>r1 r2 ys. mergeSortRecursive (\<le>) singleton_list = Return r1
         \<and> mergeSortIterative (\<le>) singleton_list = Return r2
         \<and> elements r1 = Return ys \<and> elements r2 = Return ys)
   \<and> holds list_135 [1, 3, 5]
   \<and> (\<exists>r1 r2 ys. mergeSortRecursive (\<le>) list_135 = Return r1
         \<and> mergeSortIterative (\<le>) list_135 = Return r2
         \<and> elements r1 = Return ys \<and> elements r2 = Return ys)
   \<and> holds list_531 [5, 3, 1]
   \<and> (\<exists>r1 r2 ys. mergeSortRecursive (\<le>) list_531 = Return r1
         \<and> mergeSortIterative (\<le>) list_531 = Return r2
         \<and> elements r1 = Return ys \<and> elements r2 = Return ys)
   \<and> holds list_224 [2, 2, 4]
   \<and> (\<exists>r1 r2 ys. mergeSortRecursive (\<le>) list_224 = Return r1
         \<and> mergeSortIterative (\<le>) list_224 = Return r2
         \<and> elements r1 = Return ys \<and> elements r2 = Return ys)"
proof -
  have inst: "\<exists>r1 r2 ys. mergeSortRecursive (\<le>) l = Return r1
         \<and> mergeSortIterative (\<le>) l = Return r2
         \<and> elements r1 = Return ys \<and> elements r2 = Return ys"
    if h: "holds l xs" for l :: "int LinkedList" and xs
  proof -
    from mergeSort_variants_agree[OF h connex_int transp_int] obtain r1 r2 ys zs where
      r: "mergeSortRecursive (\<le>) l = Return r1" "mergeSortIterative (\<le>) l = Return r2"
        "elements r1 = Return ys" "elements r2 = Return zs"
        "antisymp ((\<le>) :: int \<Rightarrow> int \<Rightarrow> bool) \<longrightarrow> ys = zs" by blast
    from r(5) antisymp_int have "ys = zs" by (rule mp)
    with r(1-4) show ?thesis by blast
  qed
  from connex_int transp_int antisymp_int
    holds_default[where 'a = int] holds_singleton_list holds_list_135 holds_list_531
    holds_list_224
    inst[OF holds_default[where 'a = int]] inst[OF holds_singleton_list]
    inst[OF holds_list_135] inst[OF holds_list_531] inst[OF holds_list_224]
  show ?thesis by (intro conjI) assumption+
qed

section \<open>Both merge sorts return\<close>

text \<open>
  Claim C9.  Whatever the comparison is, on a list that holds a sequence both
  \<^verbatim>\<open>mergeSortRecursive\<close> and \<^verbatim>\<open>mergeSortIterative\<close> return a list.  When the list has at
  least two elements, the two halves that \<^verbatim>\<open>splitHalves\<close> returns, on which
  \<^verbatim>\<open>mergeSortRecursive\<close> calls itself, are each strictly smaller than the list.  On a
  work queue of lists, one run of the loop body of \<^verbatim>\<open>mergeSortIterative\<close> leaves a queue
  with one list less whenever the queue has more than one list, and the loop returns a
  queue with exactly one list whenever it starts on a queue that has a list.
\<close>

theorem mergeSort_terminates:
  assumes "holds l xs" and "holds2 q xss"
  shows "(\<exists>r. mergeSortRecursive le l = Return r)
       \<and> (\<exists>r. mergeSortIterative le l = Return r)
       \<and> (2 \<le> size_LL l \<longrightarrow>
            (\<exists>halves left right. splitHalves l = Return halves \<and> holds halves [left, right]
               \<and> size_LL left < size_LL l \<and> size_LL right < size_LL l))
       \<and> (1 < size_LL q \<longrightarrow>
            (\<exists>q'. mergeSortIterative_step le q = Return q' \<and> size_LL q' = size_LL q - 1))
       \<and> (0 < size_LL q \<longrightarrow>
            (\<exists>q'. mergeSortIterative_loop le q = Return q' \<and> size_LL q' = 1))"
proof -
  have rec: "\<exists>r. mergeSortRecursive le l = Return r"
    using mergeSortRecursive_holds[OF assms(1), of le] by blast
  have iter: "\<exists>r. mergeSortIterative le l = Return r"
    using mergeSortIterative_holds[OF assms(1), of le] by blast
  have sz: "size_LL l = int (length xs)"
    unfolding size_LL_def by (rule holds_size[OF assms(1)])
  have halves: "2 \<le> size_LL l \<longrightarrow>
            (\<exists>halves left right. splitHalves l = Return halves \<and> holds halves [left, right]
               \<and> size_LL left < size_LL l \<and> size_LL right < size_LL l)"
  proof
    assume "2 \<le> size_LL l"
    then have n: "2 \<le> length xs" using sz by simp
    from splitHalves_holds[OF assms(1)] obtain halves left right where
      h: "splitHalves l = Return halves" "holds halves [left, right]"
        "holds left (take (length xs - length xs div 2) xs)"
        "holds right (drop (length xs - length xs div 2) xs)" by blast
    have "size_LL left < size_LL l" "size_LL right < size_LL l"
      unfolding size_LL_def holds_size[OF h(3)] holds_size[OF h(4)] holds_size[OF assms(1)]
      using n by simp_all
    with h(1,2) show "\<exists>halves left right. splitHalves l = Return halves
        \<and> holds halves [left, right] \<and> size_LL left < size_LL l \<and> size_LL right < size_LL l"
      by blast
  qed
  have qs: "size_LL q = int (length xss)" by (rule holds2_size[OF assms(2)])
  have step: "1 < size_LL q \<longrightarrow>
            (\<exists>q'. mergeSortIterative_step le q = Return q' \<and> size_LL q' = size_LL q - 1)"
  proof
    assume "1 < size_LL q"
    then obtain a b rest where x: "xss = a # b # rest"
      using qs by (cases xss; cases "tl xss") auto
    from mergeSortIterative_step_holds2[OF assms(2)[unfolded x], of le] obtain q' where
      q': "mergeSortIterative_step le q = Return q'"
        "holds2 q' (rest @ [merge_list le a b])" by blast
    have "size_LL q' = size_LL q - 1"
      unfolding holds2_size[OF q'(2)] qs x by simp
    with q'(1) show "\<exists>q'. mergeSortIterative_step le q = Return q' \<and> size_LL q' = size_LL q - 1"
      by blast
  qed
  have loop: "0 < size_LL q \<longrightarrow>
            (\<exists>q'. mergeSortIterative_loop le q = Return q' \<and> size_LL q' = 1)"
  proof
    assume "0 < size_LL q"
    then have ne: "xss \<noteq> []" using qs by auto
    from mergeSortIterative_loop_holds2[OF assms(2) ne, of le] obtain q' ys where
      q': "mergeSortIterative_loop le q = Return q'" "holds2 q' [ys]" by blast
    have "size_LL q' = 1" unfolding holds2_size[OF q'(2)] by simp
    with q'(1) show "\<exists>q'. mergeSortIterative_loop le q = Return q' \<and> size_LL q' = 1"
      by blast
  qed
  from rec iter halves step loop show ?thesis by (intro conjI)
qed

theorem mergeSort_terminates_witness:
  "holds example_list [5, 3, 8, 1] \<and> holds2 example_queue [[7], [7]]
   \<and> 2 \<le> size_LL example_list \<and> 1 < size_LL example_queue \<and> 0 < size_LL example_queue
   \<and> (\<exists>r. mergeSortRecursive (\<le>) example_list = Return r)
   \<and> (\<exists>r. mergeSortIterative (\<le>) example_list = Return r)
   \<and> (\<exists>halves left right. splitHalves example_list = Return halves
         \<and> holds halves [left, right]
         \<and> size_LL left < size_LL example_list \<and> size_LL right < size_LL example_list)
   \<and> (\<exists>q'. mergeSortIterative_step (\<le>) example_queue = Return q'
         \<and> size_LL q' = size_LL example_queue - 1)
   \<and> (\<exists>q'. mergeSortIterative_loop (\<le>) example_queue = Return q' \<and> size_LL q' = 1)"
proof -
  have a: "2 \<le> size_LL example_list" by (simp add: size_LL_def example_list_def)
  have b: "1 < size_LL example_queue" "0 < size_LL example_queue"
    by (simp_all add: size_LL_def example_queue_def)
  note t = mergeSort_terminates[OF holds_example_list holds2_example_queue, of "(\<le>)"]
  from t have t1: "\<exists>r. mergeSortRecursive (\<le>) example_list = Return r" by (elim conjE)
  from t have t2: "\<exists>r. mergeSortIterative (\<le>) example_list = Return r" by (elim conjE)
  from t a have t3: "\<exists>halves left right. splitHalves example_list = Return halves
         \<and> holds halves [left, right]
         \<and> size_LL left < size_LL example_list \<and> size_LL right < size_LL example_list"
    by (elim conjE) (erule (1) mp)
  from t b(1) have t4: "\<exists>q'. mergeSortIterative_step (\<le>) example_queue = Return q'
         \<and> size_LL q' = size_LL example_queue - 1"
    by (elim conjE) (erule (1) mp)
  from t b(2) have t5: "\<exists>q'. mergeSortIterative_loop (\<le>) example_queue = Return q'
         \<and> size_LL q' = 1"
    by (elim conjE) (erule (1) mp)
  from holds_example_list holds2_example_queue a b t1 t2 t3 t4 t5 show ?thesis
    by (intro conjI)
qed

section \<open>The examples of the spec\<close>

text \<open>
  The examples of the spec: \<^verbatim>\<open>[5,3,8,1]\<close> sorted, the empty list sorted, and \<^verbatim>\<open>[1,3,5]\<close>
  merged with \<^verbatim>\<open>[2,2,4]\<close>.
\<close>

lemma spec_examples:
  "bindM (mergeSort (\<le>) example_list) elements = Return [1, 3, 5, 8]
   \<and> bindM (mergeSort (\<le>) (LinkedList_default :: int LinkedList)) elements = Return []
   \<and> bindM (merge (\<le>) list_135 list_224) elements = Return [1, 2, 2, 3, 4, 5]
   \<and> bindM (mergeSortIterative (\<le>) example_list) elements = Return [1, 3, 5, 8]"
  by code_simp

end
